theory Spec2Isabelle
  imports Complex_Main "HOL-Library.Word"
begin

section \<open>The ICMP pinger of \<^verbatim>\<open>gp.go\<close>\<close>

text \<open>
  The development embeds \<^verbatim>\<open>NewPinger\<close>, \<^verbatim>\<open>isIPv4\<close>, \<^verbatim>\<open>Run\<close>,
  \<^verbatim>\<open>GenerateStats\<close>, \<^verbatim>\<open>finish\<close> and \<^verbatim>\<open>listen\<close>.

  Conventions.
  \<^item> Go's \<^verbatim>\<open>int\<close> is taken at its 64-bit width and \<^verbatim>\<open>time.Duration\<close> is
    \<^verbatim>\<open>int64\<close>: both are \<open>64 word\<close> read as two's complement, so \<open>+\<close>, \<open>-\<close> and
    \<open>*\<close> wrap as they do in Go.
  \<^item> \<^verbatim>\<open>float64\<close> is IEEE 754 binary64 with round-to-nearest, ties to even. The two
    zeros are identified (they compare equal in Go); a zero divisor is read as \<open>+0\<close>, which
    is the only zero an integer conversion produces.
  \<^item> A method with a pointer receiver takes the pinger and returns it, so that what it
    writes, and what it leaves alone, is part of its result.
  \<^item> The resolver, the random generator and the ICMP transport are collaborators outside
    the file: their results are arguments of the functions that call them.
\<close>

subsection \<open>Machine integers\<close>

type_synonym go_int = "64 word"
type_synonym Duration = "64 word"

text \<open>Go's \<^verbatim>\<open>/\<close> on signed integers truncates towards zero; \<open>minInt64 / -1\<close> wraps.\<close>

definition tdiv :: "int \<Rightarrow> int \<Rightarrow> int" where
  "tdiv a b = sgn a * sgn b * (\<bar>a\<bar> div \<bar>b\<bar>)"

definition div64 :: "64 word \<Rightarrow> 64 word \<Rightarrow> 64 word" where
  "div64 a b = word_of_int (tdiv (sint a) (sint b))"

subsection \<open>IEEE 754 binary64\<close>

datatype float64 = NaN | PInf | NInf | Finite real

text \<open>Number of binary digits of a natural number.\<close>

fun bitlen :: "nat \<Rightarrow> nat" where
  "bitlen n = (if n = 0 then 0 else Suc (bitlen (n div 2)))"

declare bitlen.simps [simp del]

definition pow2 :: "int \<Rightarrow> real" where
  "pow2 e = (if 0 \<le> e then 2 ^ nat e else 1 / 2 ^ nat (- e))"

text \<open>For \<open>0 < q\<close>, the exponent \<open>e\<close> with \<open>2\<^sup>e \<le> q < 2\<^sup>e\<^sup>+\<^sup>1\<close>.\<close>

definition ilog2 :: "real \<Rightarrow> int" where
  "ilog2 q =
     (if 1 \<le> q then int (bitlen (nat \<lfloor>q\<rfloor>)) - 1
      else - int (bitlen (nat (\<lceil>1 / q\<rceil> - 1))))"

text \<open>Nearest integer, a tie going to the even neighbour.\<close>

definition rne :: "real \<Rightarrow> int" where
  "rne x =
     (let f = \<lfloor>x\<rfloor>; d = x - of_int f
      in if d < 1 / 2 then f else if 1 / 2 < d then f + 1 else if even f then f else f + 1)"

text \<open>
  Rounding of an exact value to binary64: 53 significant bits, least exponent \<open>-1022\<close>
  (below it the spacing stays \<open>2\<^sup>-\<^sup>1\<^sup>0\<^sup>7\<^sup>4\<close>), overflow to an infinity from \<open>2\<^sup>1\<^sup>0\<^sup>2\<^sup>4\<close>.
\<close>

definition round64 :: "real \<Rightarrow> float64" where
  "round64 q =
     (if q = 0 then Finite 0
      else let a = \<bar>q\<bar>;
               e = max (ilog2 a) (- 1022);
               u = pow2 (e - 52);
               r = of_int (rne (a / u)) * u
           in if 2 ^ 1024 \<le> r then (if 0 < q then PInf else NInf)
              else Finite (if 0 < q then r else - r))"

definition f64_of_int :: "int \<Rightarrow> float64" where
  "f64_of_int i = round64 (of_int i)"

text \<open>\<^verbatim>\<open>float64(x)\<close> for an integer \<open>x\<close>.\<close>

definition f64_of_int64 :: "64 word \<Rightarrow> float64" where
  "f64_of_int64 w = f64_of_int (sint w)"

fun f64_div :: "float64 \<Rightarrow> float64 \<Rightarrow> float64" where
  "f64_div NaN y = NaN"
| "f64_div x NaN = NaN"
| "f64_div (Finite a) (Finite b) =
     (if b = 0 then (if a = 0 then NaN else if 0 < a then PInf else NInf)
      else round64 (a / b))"
| "f64_div (Finite a) y = Finite 0"
| "f64_div PInf (Finite b) = (if 0 \<le> b then PInf else NInf)"
| "f64_div NInf (Finite b) = (if 0 \<le> b then NInf else PInf)"
| "f64_div x y = NaN"

fun f64_mul :: "float64 \<Rightarrow> float64 \<Rightarrow> float64" where
  "f64_mul NaN y = NaN"
| "f64_mul x NaN = NaN"
| "f64_mul (Finite a) (Finite b) = round64 (a * b)"
| "f64_mul (Finite a) PInf = (if a = 0 then NaN else if 0 < a then PInf else NInf)"
| "f64_mul (Finite a) NInf = (if a = 0 then NaN else if 0 < a then NInf else PInf)"
| "f64_mul PInf (Finite b) = (if b = 0 then NaN else if 0 < b then PInf else NInf)"
| "f64_mul NInf (Finite b) = (if b = 0 then NaN else if 0 < b then NInf else PInf)"
| "f64_mul PInf PInf = PInf"
| "f64_mul PInf NInf = NInf"
| "f64_mul NInf PInf = NInf"
| "f64_mul NInf NInf = PInf"

text \<open>Integer square root: the greatest \<open>r\<close> with \<open>r\<^sup>2 \<le> n\<close>.\<close>

fun isqrt :: "nat \<Rightarrow> nat" where
  "isqrt n =
     (if n < 2 then n
      else let r = 2 * isqrt (n div 4)
           in if (r + 1) * (r + 1) \<le> n then r + 1 else r)"

declare isqrt.simps [simp del]

text \<open>
  \<^verbatim>\<open>math.Sqrt\<close>: the correctly rounded square root. For \<open>0 < q\<close> the root lies in
  \<open>[2\<^sup>e, 2\<^sup>e\<^sup>+\<^sup>1)\<close> with \<open>e = \<lfloor>log\<^sub>2 q / 2\<rfloor>\<close>; \<open>m\<close> is the root in units of the spacing there,
  rounded down, and the comparison with \<open>(m + 1/2)\<^sup>2\<close> decides the rounding.
\<close>

definition round_sqrt :: "real \<Rightarrow> float64" where
  "round_sqrt q =
     (let e = ilog2 q div 2;
          u = pow2 (e - 52);
          x = q / (u * u);
          m = int (isqrt (nat \<lfloor>x\<rfloor>));
          c = (of_int m + 1 / 2) * (of_int m + 1 / 2);
          m' = (if x < c then m else if c < x then m + 1 else if even m then m else m + 1)
      in Finite (of_int m' * u))"

fun f64_sqrt :: "float64 \<Rightarrow> float64" where
  "f64_sqrt NaN = NaN"
| "f64_sqrt PInf = PInf"
| "f64_sqrt NInf = NaN"
| "f64_sqrt (Finite q) = (if q < 0 then NaN else if q = 0 then Finite 0 else round_sqrt q)"

text \<open>
  \<^verbatim>\<open>time.Duration(f)\<close> for a \<^verbatim>\<open>float64\<close>: the fraction is discarded. Go leaves the
  result open when the value does not fit (a NaN, an infinity, a magnitude from \<open>2\<^sup>6\<^sup>3\<close>);
  the value taken here is the one amd64 gives.
\<close>

definition indefinite :: "64 word" where
  "indefinite = 0x8000000000000000"

fun f64_to_int64 :: "float64 \<Rightarrow> 64 word" where
  "f64_to_int64 (Finite q) =
     (let t = (if 0 \<le> q then \<lfloor>q\<rfloor> else \<lceil>q\<rceil>)
      in if - (2 ^ 63) \<le> t \<and> t < 2 ^ 63 then word_of_int t else indefinite)"
| "f64_to_int64 x = indefinite"

subsection \<open>Constants and data\<close>

definition timeSliceLen :: go_int where
  "timeSliceLen = 8"

definition trackerLen :: go_int where
  "trackerLen = 8"

definition protocolICMP :: go_int where
  "protocolICMP = 1"

definition protocolIPv6ICMP :: go_int where
  "protocolIPv6ICMP = 58"

text \<open>
  The two protocol tables are Go maps from strings to strings; reading a key that is not
  there gives the empty string.
\<close>

definition ipv4Proto :: "string \<rightharpoonup> string" where
  "ipv4Proto = [''ip'' \<mapsto> ''ip4:icmp'', ''udp'' \<mapsto> ''udp4'']"

definition ipv6Proto :: "string \<rightharpoonup> string" where
  "ipv6Proto = [''ip'' \<mapsto> ''ip6:ipv6-icmp'', ''udp'' \<mapsto> ''udp6'']"

definition index_map :: "(string \<rightharpoonup> string) \<Rightarrow> string \<Rightarrow> string" where
  "index_map m k = (case m k of None \<Rightarrow> [] | Some v \<Rightarrow> v)"

text \<open>\<^verbatim>\<open>net.IPAddr\<close>: the address bytes and the IPv6 zone.\<close>

record IPAddr =
  IP :: "8 word list"
  Zone :: string

text \<open>A channel value: the nil channel, or a channel that is open or closed.\<close>

datatype chan = NilChan | OpenChan | ClosedChan

datatype panic = CloseOfNilChannel | CloseOfClosedChannel

definition close_chan :: "chan \<Rightarrow> panic + chan" where
  "close_chan c =
     (case c of NilChan \<Rightarrow> Inl CloseOfNilChannel
      | ClosedChan \<Rightarrow> Inl CloseOfClosedChannel
      | OpenChan \<Rightarrow> Inr ClosedChan)"

record Packet =
  Rtt :: Duration
  IPAddr :: "IPAddr option"
  Addr :: string
  Nbytes :: go_int
  Sequence :: go_int
  TTL :: go_int

record Stats =
  PacketsRecieve :: go_int
  PacketsSent :: go_int
  PacketsLoss :: float64
  IPAddr :: "IPAddr option"
  Addr :: string
  Rtts :: "Duration list"
  MinRtt :: Duration
  MaxRtt :: Duration
  AvgRtt :: Duration
  StdDevRtt :: Duration

text \<open>
  The pinger. A callback is a function of the caller, acting on the caller's own state
  \<open>'u\<close>; \<open>None\<close> is the nil function. The fields \<^verbatim>\<open>done\<close>, \<^verbatim>\<open>size\<close> and \<^verbatim>\<open>id\<close> carry
  a prime, their names being taken in Isabelle.
\<close>

record 'u Pinger =
  Count :: go_int
  Debug :: bool
  Interval :: Duration
  Timeout :: Duration
  PacketsSent :: go_int
  PacketsRecieve :: go_int
  OnRecieve :: "(Packet \<Rightarrow> 'u \<Rightarrow> 'u) option"
  OnFinish :: "(Stats \<Rightarrow> 'u \<Rightarrow> 'u) option"
  Size :: go_int
  Tracker :: "64 word"
  Source :: string
  done' :: chan
  rtts :: "Duration list"
  ipaddr :: "IPAddr option"
  addr :: string
  ipv4 :: bool
  size' :: go_int
  id' :: go_int
  sequence :: go_int
  network :: string

text \<open>
  What a run does outside the pinger: the caller's state, on which the callbacks act, the
  lines handed to \<^verbatim>\<open>log.Println\<close> (each a list of operands), and the calls made on
  the transport, in order.
\<close>

type_synonym conn = nat

datatype transport_call =
    SetControlMessageTTL conn bool
  | SetControlMessageHopLimit conn bool
  | Close conn

record 'u world =
  user :: 'u
  logged :: "string list list"
  transport :: "transport_call list"

subsection \<open>Construction\<close>

text \<open>
  \<^verbatim>\<open>net.IP.To4\<close> of the standard library: a 4-byte address is itself; a 16-byte address
  with the IPv4-in-IPv6 prefix gives its last four bytes; anything else gives nil, whose
  length is 0.
\<close>

definition To4 :: "8 word list \<Rightarrow> 8 word list" where
  "To4 ip =
     (if length ip = 4 then ip
      else if length ip = 16 \<and> take 10 ip = replicate 10 0 \<and> ip ! 10 = 0xff \<and> ip ! 11 = 0xff
      then drop 12 ip
      else [])"

definition isIPv4 :: "8 word list \<Rightarrow> bool" where
  "isIPv4 ip = (4 = length (To4 ip))"

definition MaxInt16 :: int where
  "MaxInt16 = 2 ^ 15 - 1"

definition MaxInt64 :: int where
  "MaxInt64 = 2 ^ 63 - 1"

text \<open>
  \<^verbatim>\<open>NewPinger\<close>. \<open>ResolveIPAddr\<close> is the resolver, called on the network \<^verbatim>\<open>"ip"\<close> and
  the address, giving an error or an address. \<open>Intn\<close> and \<open>Int63n\<close> are the two draws
  from the generator seeded with the clock, as functions of their bound. Fields that the
  composite literal does not name have Go's zero value.
\<close>

definition NewPinger ::
  "(string \<Rightarrow> string \<Rightarrow> string + IPAddr) \<Rightarrow> (int \<Rightarrow> go_int) \<Rightarrow> (int \<Rightarrow> 64 word) \<Rightarrow> string
     \<Rightarrow> string + 'u Pinger" where
  "NewPinger ResolveIPAddr Intn Int63n a =
     (case ResolveIPAddr ''ip'' a of
        Inl err \<Rightarrow> Inl err
      | Inr ipa \<Rightarrow>
          let v4 = (if isIPv4 (IP ipa) then True else False)
          in Inr \<lparr> Count = - 1,
                   Debug = False,
                   Interval = 1000000000,
                   Timeout = 1000000000 * 100,
                   PacketsSent = 0,
                   PacketsRecieve = 0,
                   OnRecieve = None,
                   OnFinish = None,
                   Size = 0,
                   Tracker = Int63n MaxInt64,
                   Source = [],
                   done' = OpenChan,
                   rtts = [],
                   ipaddr = Some ipa,
                   addr = a,
                   ipv4 = v4,
                   size' = timeSliceLen,
                   id' = Intn MaxInt16,
                   sequence = 0,
                   network = ''udp'' \<rparr>)"

subsection \<open>Statistics\<close>

text \<open>
  The first loop of \<^verbatim>\<open>GenerateStats\<close>: one pass over the samples that carries
  \<^verbatim>\<open>min\<close>, \<^verbatim>\<open>max\<close> and \<^verbatim>\<open>total\<close> (here \<open>mn\<close>, \<open>mx\<close>, \<open>tot\<close>). The comparisons are
  signed.
\<close>

fun scan_rtts :: "Duration list \<Rightarrow> Duration \<times> Duration \<times> Duration \<Rightarrow> Duration \<times> Duration \<times> Duration" where
  "scan_rtts [] acc = acc"
| "scan_rtts (rtt # rs) (mn, mx, tot) =
     scan_rtts rs (if rtt <s mn then rtt else mn, if mx <s rtt then rtt else mx, tot + rtt)"

text \<open>The second loop: the squared distances from the average, summed.\<close>

fun sum_squares :: "Duration list \<Rightarrow> Duration \<Rightarrow> Duration \<Rightarrow> Duration" where
  "sum_squares [] avg sumSquares = sumSquares"
| "sum_squares (rtt # rs) avg sumSquares =
     sum_squares rs avg (sumSquares + (rtt - avg) * (rtt - avg))"

definition GenerateStats :: "'u Pinger \<Rightarrow> Stats \<times> 'u Pinger" where
  "GenerateStats p =
     (let loss = f64_mul
                   (f64_div (f64_of_int64 (Pinger.PacketsSent p - Pinger.PacketsRecieve p))
                            (f64_of_int64 (Pinger.PacketsSent p)))
                   (Finite 100);
          n = (word_of_nat (length (rtts p)) :: 64 word);
          (min0, max0) = (case rtts p of [] \<Rightarrow> (0, 0) | r # _ \<Rightarrow> (r, r));
          (mn, mx, tot) = scan_rtts (rtts p) (min0, max0, 0);
          s = \<lparr> Stats.PacketsRecieve = Pinger.PacketsRecieve p,
                Stats.PacketsSent = Pinger.PacketsSent p,
                PacketsLoss = loss,
                IPAddr = ipaddr p,
                Addr = addr p,
                Rtts = rtts p,
                MinRtt = mn,
                MaxRtt = mx,
                AvgRtt = 0,
                StdDevRtt = 0 \<rparr>
      in if 0 < length (rtts p)
         then let s1 = s\<lparr>AvgRtt := div64 tot n\<rparr>;
                  sumSquares = sum_squares (rtts p) (AvgRtt s1) 0
              in (s1\<lparr>StdDevRtt := f64_to_int64 (f64_sqrt (f64_of_int64 (div64 sumSquares n)))\<rparr>, p)
         else (s, p))"

subsection \<open>Running\<close>

text \<open>\<^verbatim>\<open>finish\<close>: the handler, when there is one, is applied to fresh statistics.\<close>

definition finish :: "'u Pinger \<Rightarrow> 'u world \<Rightarrow> 'u Pinger \<times> 'u world" where
  "finish p w =
     (case OnFinish p of
        None \<Rightarrow> (p, w)
      | Some handler \<Rightarrow>
          (case GenerateStats p of (s, p') \<Rightarrow> (p', w\<lparr>user := handler s (user w)\<rparr>)))"

text \<open>
  \<^verbatim>\<open>listen\<close>. \<open>ListenPacket\<close> is the transport's answer to the call with the protocol
  and the source address: an error or a connection. On an error the line is logged
  (\<^verbatim>\<open>Println\<close> does not interpret the format verbs), \<^verbatim>\<open>done\<close> is closed, which
  panics unless the channel is open, and nil is returned.
\<close>

definition listen ::
  "(string \<Rightarrow> string \<Rightarrow> string + conn) \<Rightarrow> 'u Pinger \<Rightarrow> string \<Rightarrow> 'u world
     \<Rightarrow> panic + (conn option \<times> 'u Pinger \<times> 'u world)" where
  "listen ListenPacket p netProto w =
     (case ListenPacket netProto (Source p) of
        Inl err \<Rightarrow>
          (let w' = w\<lparr>logged := logged w @ [[''Error listening for ICMP Packets: %s\<newline>'', err]]\<rparr>
           in case close_chan (done' p) of
                Inl e \<Rightarrow> Inl e
              | Inr c \<Rightarrow> Inr (None, p\<lparr>done' := c\<rparr>, w'))
      | Inr c \<Rightarrow> Inr (Some c, p, w))"

text \<open>
  \<^verbatim>\<open>Run\<close>. The two deferred calls run when the function returns, the last deferred
  first: \<^verbatim>\<open>finish\<close>, then \<^verbatim>\<open>conn.Close\<close>. Nothing stands between the control
  message and the return.
\<close>

definition Run ::
  "(string \<Rightarrow> string \<Rightarrow> string + conn) \<Rightarrow> 'u Pinger \<Rightarrow> 'u world \<Rightarrow> panic + ('u Pinger \<times> 'u world)" where
  "Run ListenPacket p w =
     (if ipv4 p
      then (case listen ListenPacket p (index_map ipv4Proto (network p)) w of
              Inl e \<Rightarrow> Inl e
            | Inr (None, p1, w1) \<Rightarrow> Inr (p1, w1)
            | Inr (Some c, p1, w1) \<Rightarrow>
                (let w2 = w1\<lparr>transport := transport w1 @ [SetControlMessageTTL c True]\<rparr>
                 in case finish p1 w2 of
                      (p3, w3) \<Rightarrow> Inr (p3, w3\<lparr>transport := transport w3 @ [Close c]\<rparr>)))
      else (case listen ListenPacket p (index_map ipv6Proto (network p)) w of
              Inl e \<Rightarrow> Inl e
            | Inr (None, p1, w1) \<Rightarrow> Inr (p1, w1)
            | Inr (Some c, p1, w1) \<Rightarrow>
                (let w2 = w1\<lparr>transport := transport w1 @ [SetControlMessageHopLimit c True]\<rparr>
                 in case finish p1 w2 of
                      (p3, w3) \<Rightarrow> Inr (p3, w3\<lparr>transport := transport w3 @ [Close c]\<rparr>))))"

text \<open>The protocol string that \<^verbatim>\<open>Run\<close> hands to \<^verbatim>\<open>listen\<close>.\<close>

definition used_proto :: "'u Pinger \<Rightarrow> string" where
  "used_proto p =
     (if ipv4 p then index_map ipv4Proto (network p) else index_map ipv6Proto (network p))"

subsection \<open>The specification's quantities\<close>

text \<open>
  The loss of the specification, \<open>(N - R) / N * 100\<close>, on the counts as integers, in
  binary64 arithmetic: two conversions, a division and a multiplication, each rounded.
\<close>

definition loss_formula :: "int \<Rightarrow> int \<Rightarrow> float64" where
  "loss_formula n r = f64_mul (f64_div (f64_of_int (n - r)) (f64_of_int n)) (Finite 100)"

text \<open>The same quotient taken in the reals, with nothing rounded.\<close>

definition exact_loss :: "int \<Rightarrow> int \<Rightarrow> real" where
  "exact_loss n r = of_int (n - r) / of_int n * 100"

text \<open>\<open>y\<close> lies within the relative distance \<open>eps\<close> of \<open>x\<close>.\<close>

definition close_to :: "real \<Rightarrow> real \<Rightarrow> real \<Rightarrow> bool" where
  "close_to eps x y \<longleftrightarrow> \<bar>y - x\<bar> \<le> eps * \<bar>x\<bar>"

text \<open>
  The arithmetic mean of the samples, the mean of their squared distances from a centre
  \<open>c\<close>, and the population standard deviation: the root of that mean taken about the
  arithmetic mean.
\<close>

definition arithmetic_mean :: "Duration list \<Rightarrow> real" where
  "arithmetic_mean rs = (\<Sum>r\<leftarrow>rs. real_of_int (sint r)) / real (length rs)"

definition mean_sq_dev :: "Duration list \<Rightarrow> real \<Rightarrow> real" where
  "mean_sq_dev rs c = (\<Sum>r\<leftarrow>rs. (real_of_int (sint r) - c)\<^sup>2) / real (length rs)"

definition population_std_dev :: "Duration list \<Rightarrow> real" where
  "population_std_dev rs = sqrt (mean_sq_dev rs (arithmetic_mean rs))"

text \<open>Rounding towards zero, and the two sums whose size decides whether \<^verbatim>\<open>int64\<close> wraps.\<close>

definition toward_zero :: "real \<Rightarrow> int" where
  "toward_zero x = (if 0 \<le> x then \<lfloor>x\<rfloor> else \<lceil>x\<rceil>)"

definition sample_sum :: "Duration list \<Rightarrow> int" where
  "sample_sum rs = (\<Sum>r\<leftarrow>rs. sint r)"

definition sq_dev_sum :: "Duration list \<Rightarrow> int \<Rightarrow> int" where
  "sq_dev_sum rs a = (\<Sum>r\<leftarrow>rs. (sint r - a) * (sint r - a))"

subsection \<open>Scenarios\<close>

text \<open>
  Concrete collaborators and pingers on which the theorems below are run: a resolver that
  knows the loopback address only, fixed draws, a transport that opens connection 3 and
  one that refuses, and callbacks that record what they are given.
\<close>

definition loopback :: IPAddr where
  "loopback = \<lparr>IP = [127, 0, 0, 1], Zone = []\<rparr>"

definition resolve_loopback :: "string \<Rightarrow> string \<Rightarrow> string + IPAddr" where
  "resolve_loopback n a = (if a = ''127.0.0.1'' then Inr loopback else Inl ''no such host'')"

definition draw_Intn :: "int \<Rightarrow> go_int" where
  "draw_Intn n = 77"

definition draw_Int63n :: "int \<Rightarrow> 64 word" where
  "draw_Int63n n = 4242"

record calls =
  packets :: "Packet list"
  finished :: "Stats list"

definition record_packet :: "Packet \<Rightarrow> calls \<Rightarrow> calls" where
  "record_packet pk u = u\<lparr>packets := packets u @ [pk]\<rparr>"

definition record_stats :: "Stats \<Rightarrow> calls \<Rightarrow> calls" where
  "record_stats s u = u\<lparr>finished := finished u @ [s]\<rparr>"

text \<open>The pinger that \<^verbatim>\<open>NewPinger("127.0.0.1")\<close> returns under these collaborators.\<close>

definition fresh_pinger :: "calls Pinger" where
  "fresh_pinger =
     \<lparr> Count = - 1, Debug = False, Interval = 1000000000, Timeout = 100000000000,
       PacketsSent = 0, PacketsRecieve = 0, OnRecieve = None, OnFinish = None, Size = 0,
       Tracker = 4242, Source = [], done' = OpenChan, rtts = [], ipaddr = Some loopback,
       addr = ''127.0.0.1'', ipv4 = True, size' = 8, id' = 77, sequence = 0,
       network = ''udp'' \<rparr>"

text \<open>The same pinger set up for five packets, 10 ms apart, with both callbacks.\<close>

definition scenario_pinger :: "calls Pinger" where
  "scenario_pinger =
     fresh_pinger\<lparr>Count := 5, Interval := 10000000,
                  OnRecieve := Some record_packet, OnFinish := Some record_stats\<rparr>"

definition no_calls :: "calls world" where
  "no_calls = \<lparr>user = \<lparr>packets = [], finished = []\<rparr>, logged = [], transport = []\<rparr>"

definition listen_ok :: "string \<Rightarrow> string \<Rightarrow> string + conn" where
  "listen_ok proto src = Inr 3"

definition listen_fails :: "string \<Rightarrow> string \<Rightarrow> string + conn" where
  "listen_fails proto src = Inl ''operation not permitted''"

text \<open>The statistics of a pinger on the loopback address that has sent nothing.\<close>

definition idle_stats :: Stats where
  "idle_stats =
     \<lparr> Stats.PacketsRecieve = 0, Stats.PacketsSent = 0, PacketsLoss = NaN,
       IPAddr = Some loopback, Addr = ''127.0.0.1'', Rtts = [],
       MinRtt = 0, MaxRtt = 0, AvgRtt = 0, StdDevRtt = 0 \<rparr>"

text \<open>
  Pingers with counts set: five sent and three received; three sent and two received; and
  one sent with the least \<^verbatim>\<open>int\<close> as the received count.
\<close>

definition lossy_pinger :: "calls Pinger" where
  "lossy_pinger = fresh_pinger\<lparr>PacketsSent := 5, PacketsRecieve := 3\<rparr>"

definition third_pinger :: "calls Pinger" where
  "third_pinger = fresh_pinger\<lparr>PacketsSent := 3, PacketsRecieve := 2\<rparr>"

definition wrap_pinger :: "calls Pinger" where
  "wrap_pinger = fresh_pinger\<lparr>PacketsSent := 1, PacketsRecieve := 0x8000000000000000\<rparr>"

text \<open>
  Pingers with samples, in nanoseconds: 1 and 2; 10, 20 and 60; and 1 ms with 5.001 s.
\<close>

definition two_samples :: "calls Pinger" where
  "two_samples = fresh_pinger\<lparr>PacketsSent := 2, PacketsRecieve := 2, rtts := [1, 2]\<rparr>"

definition three_samples :: "calls Pinger" where
  "three_samples = fresh_pinger\<lparr>PacketsSent := 3, PacketsRecieve := 3, rtts := [10, 20, 60]\<rparr>"

definition slow_pinger :: "calls Pinger" where
  "slow_pinger =
     fresh_pinger\<lparr>PacketsSent := 2, PacketsRecieve := 2, rtts := [1000000, 5001000000]\<rparr>"

text \<open>
  A pinger for the IPv6 loopback address with both callbacks, and the five-packet pinger
  with its \<^verbatim>\<open>done\<close> channel already closed.
\<close>

definition loopback6 :: IPAddr where
  "loopback6 = \<lparr>IP = replicate 15 0 @ [1], Zone = []\<rparr>"

definition v6_pinger :: "calls Pinger" where
  "v6_pinger =
     fresh_pinger\<lparr>OnRecieve := Some record_packet, OnFinish := Some record_stats,
                  ipaddr := Some loopback6, addr := ''::1'', ipv4 := False\<rparr>"

definition closed_pinger :: "calls Pinger" where
  "closed_pinger = scenario_pinger\<lparr>done' := ClosedChan\<rparr>"

section \<open>Properties\<close>

subsection \<open>Machine integers\<close>

lemma sint_word_of_int_64:
  "- (2 ^ 63) \<le> k \<Longrightarrow> k < 2 ^ 63 \<Longrightarrow> sint (word_of_int k :: 64 word) = k"
  by (simp add: sint_sbintrunc' signed_take_bit_int_eq_self)

lemma sint_sub_64:
  fixes a b :: "64 word"
  assumes "- (2 ^ 63) \<le> sint a - sint b" and "sint a - sint b < 2 ^ 63"
  shows "sint (a - b) = sint a - sint b"
proof -
  have "a - b = word_of_int (sint a - sint b)" by simp
  then show ?thesis using assms by (simp only: sint_word_of_int_64)
qed

lemma scan_rtts_fold:
  "scan_rtts rs (mn, mx, tot) = (mn', mx', tot') \<Longrightarrow>
   sint mn' = fold min (map sint rs) (sint mn) \<and>
   sint mx' = fold max (map sint rs) (sint mx) \<and>
   tot' = tot + sum_list rs"
proof (induction rs arbitrary: mn mx tot)
  case Nil
  then show ?case by simp
next
  case (Cons r rs)
  let ?mn = "if r <s mn then r else mn" and ?mx = "if mx <s r then r else mx"
  from Cons.prems have "scan_rtts rs (?mn, ?mx, tot + r) = (mn', mx', tot')"
    by simp
  from Cons.IH [OF this]
  have "sint mn' = fold min (map sint rs) (sint ?mn)"
    and "sint mx' = fold max (map sint rs) (sint ?mx)"
    and "tot' = tot + r + sum_list rs"
    by simp_all
  moreover have "sint ?mn = min (sint r) (sint mn)"
    by (simp add: word_sless_alt min_def)
  moreover have "sint ?mx = max (sint r) (sint mx)"
    by (simp add: word_sless_alt max_def)
  ultimately show ?case by (simp add: ac_simps)
qed

lemma scan_rtts_spec:
  assumes "scan_rtts rs (mn, mx, tot) = (mn', mx', tot')"
  shows "sint mn' = Min (sint ` set (mn # rs))" and "sint mx' = Max (sint ` set (mx # rs))"
    and "tot' = tot + sum_list rs"
proof -
  have "Min (sint ` set (mn # rs)) = fold min (map sint rs) (sint mn)"
    using Min.set_eq_fold [of "sint mn" "map sint rs"] by simp
  then show "sint mn' = Min (sint ` set (mn # rs))"
    using scan_rtts_fold [OF assms] by simp
  have "Max (sint ` set (mx # rs)) = fold max (map sint rs) (sint mx)"
    using Max.set_eq_fold [of "sint mx" "map sint rs"] by simp
  then show "sint mx' = Max (sint ` set (mx # rs))"
    using scan_rtts_fold [OF assms] by simp
  show "tot' = tot + sum_list rs"
    using scan_rtts_fold [OF assms] by simp
qed

lemma sum_list_word_of_int: "(sum_list rs :: 64 word) = word_of_int (sum_list (map sint rs))"
  by (induction rs) simp_all

lemma sum_squares_spec:
  "sum_squares rs avg acc =
     acc + word_of_int (\<Sum>r\<leftarrow>rs. (sint r - sint avg) * (sint r - sint avg))"
  by (induction rs arbitrary: acc) (simp_all add: ac_simps)

lemma tdiv_pos_divisor:
  assumes "0 < b"
  shows "tdiv a b = (if 0 \<le> a then a div b else - ((- a) div b))"
  using assms by (simp add: tdiv_def sgn_if)

lemma tdiv_between:
  assumes "0 < b"
  shows "min 0 a \<le> tdiv a b" and "tdiv a b \<le> max 0 a"
proof -
  have *: "0 \<le> x \<Longrightarrow> 0 \<le> x div b \<and> x div b \<le> x" for x :: int
    using assms zdiv_mono2 [of x 1 b] by (simp add: pos_imp_zdiv_nonneg_iff)
  show "min 0 a \<le> tdiv a b"
    using * [of a] * [of "- a"] assms by (auto simp: tdiv_pos_divisor min_def)
  show "tdiv a b \<le> max 0 a"
    using * [of a] * [of "- a"] assms by (auto simp: tdiv_pos_divisor max_def)
qed

lemma sint_div64:
  assumes "0 < sint b"
  shows "sint (div64 a b) = tdiv (sint a) (sint b)"
proof -
  have "- (2 ^ 63) \<le> sint a" "sint a < 2 ^ 63"
    using sint_ge [of a] sint_lt [of a] by simp_all
  with tdiv_between [OF assms, of "sint a"]
  have "- (2 ^ 63) \<le> tdiv (sint a) (sint b)" "tdiv (sint a) (sint b) < 2 ^ 63"
    by linarith+
  then show ?thesis
    by (simp add: div64_def sint_word_of_int_64)
qed

lemma sint_word_of_nat_64:
  "n < 2 ^ 63 \<Longrightarrow> sint (word_of_nat n :: 64 word) = int n"
  using sint_word_of_int_64 [of "int n"] by simp

subsection \<open>Rounding to binary64\<close>

lemma bitlen_pos: "0 < n \<Longrightarrow> 0 < bitlen n"
  by (subst bitlen.simps) simp

lemma bitlen_bounds:
  "0 < n \<Longrightarrow> 2 ^ (bitlen n - 1) \<le> n \<and> n < 2 ^ bitlen n"
proof (induction n rule: bitlen.induct)
  case (1 n)
  show ?case
  proof (cases "n div 2 = 0")
    case True
    with "1.prems" have "n = 1" by (simp add: div_eq_0_iff) 
    then show ?thesis by (simp add: bitlen.simps)
  next
    case False
    then have pos: "0 < n div 2" by simp
    from "1.prems" have n0: "n \<noteq> 0" by simp
    from "1.IH" [OF n0 pos]
    have lo: "2 ^ (bitlen (n div 2) - 1) \<le> n div 2" and hi: "n div 2 < 2 ^ bitlen (n div 2)"
      by simp_all
    have b: "bitlen n = Suc (bitlen (n div 2))"
      using n0 by (subst bitlen.simps) simp
    have "2 * 2 ^ (bitlen (n div 2) - 1) \<le> n" using lo by linarith
    moreover have "(2::nat) * 2 ^ (bitlen (n div 2) - 1) = 2 ^ bitlen (n div 2)"
      using bitlen_pos [OF pos] by (cases "bitlen (n div 2)") simp_all
    moreover have "n < 2 * 2 ^ bitlen (n div 2)" using hi by linarith
    ultimately show ?thesis by (simp add: b)
  qed
qed

lemma pow2_powi: "pow2 e = 2 powi e"
  by (simp add: pow2_def power_int_def inverse_eq_divide power_one_over)

lemma pow2_pos [simp]: "0 < pow2 e"
  by (simp add: pow2_powi)

lemma pow2_diff: "pow2 (a - b) = pow2 a / pow2 b"
  by (simp add: pow2_powi power_int_diff)

lemma pow2_nat: "pow2 (int n) = 2 ^ n"
  by (simp add: pow2_def)

lemma pow2_neg_nat: "pow2 (- int n) = 1 / 2 ^ n"
  by (auto simp: pow2_def)

lemma pow2_mono: "a \<le> b \<Longrightarrow> pow2 a \<le> pow2 b"
  by (simp add: pow2_powi power_int_increasing)

lemma pow2_strict_mono: "a < b \<Longrightarrow> pow2 a < pow2 b"
  by (simp add: pow2_powi power_int_strict_increasing)

lemma pow2_less_iff: "pow2 a < pow2 b \<longleftrightarrow> a < b"
  using pow2_strict_mono [of a b] pow2_mono [of b a] by (auto simp: not_less [symmetric])

lemma ilog2_bounds:
  assumes "0 < q"
  shows "pow2 (ilog2 q) \<le> q" and "q < pow2 (ilog2 q + 1)"
proof -
  show "pow2 (ilog2 q) \<le> q"
  proof (cases "1 \<le> q")
    case True
    let ?n = "nat \<lfloor>q\<rfloor>"
    have n: "0 < ?n" using True by simp
    have "2 ^ (bitlen ?n - 1) \<le> ?n" using bitlen_bounds [OF n] by simp
    then have "(2::real) ^ (bitlen ?n - 1) \<le> real ?n"
      by (metis of_nat_le_iff of_nat_numeral of_nat_power)
    also have "real ?n \<le> q" using True by simp
    finally have "2 ^ (bitlen ?n - 1) \<le> q" .
    moreover have "int (bitlen ?n) - 1 = int (bitlen ?n - 1)"
      using bitlen_pos [OF n] by simp
    ultimately show ?thesis using True by (simp add: ilog2_def pow2_nat del: of_nat_diff)
  next
    case False
    let ?n = "nat (\<lceil>1 / q\<rceil> - 1)"
    have "1 < 1 / q" using False assms by simp
    then have c: "2 \<le> \<lceil>1 / q\<rceil>" by linarith
    then have n: "0 < ?n" by simp
    from c have "0 \<le> \<lceil>1 / q\<rceil> - 1" by linarith
    then have "real ?n = of_int (\<lceil>1 / q\<rceil> - 1)" by (rule of_nat_nat)
    then have rn: "real ?n = of_int \<lceil>1 / q\<rceil> - 1" by simp
    have "?n < 2 ^ bitlen ?n" using bitlen_bounds [OF n] by simp
    then have "Suc ?n \<le> 2 ^ bitlen ?n" by (rule Suc_leI)
    then have "real (Suc ?n) \<le> 2 ^ bitlen ?n"
      by (metis of_nat_le_iff of_nat_numeral of_nat_power)
    then have "real (?n + 1) \<le> 2 ^ bitlen ?n" by simp
    moreover have "real (?n + 1) = of_int \<lceil>1 / q\<rceil>" using rn by simp
    moreover have "1 / q \<le> of_int \<lceil>1 / q\<rceil>" by (rule le_of_int_ceiling)
    ultimately have "1 / q \<le> 2 ^ bitlen ?n" by linarith
    then have "1 / 2 ^ bitlen ?n \<le> q"
      using assms by (simp add: field_simps)
    then show ?thesis using False by (simp add: ilog2_def pow2_neg_nat)
  qed
  show "q < pow2 (ilog2 q + 1)"
  proof (cases "1 \<le> q")
    case True
    let ?n = "nat \<lfloor>q\<rfloor>"
    have n: "0 < ?n" using True by simp
    have "?n < 2 ^ bitlen ?n" using bitlen_bounds [OF n] by simp
    then have "Suc ?n \<le> 2 ^ bitlen ?n" by (rule Suc_leI)
    then have "real (Suc ?n) \<le> 2 ^ bitlen ?n"
      by (metis of_nat_le_iff of_nat_numeral of_nat_power)
    then have "real (?n + 1) \<le> 2 ^ bitlen ?n" by simp
    moreover have "q < real (?n + 1)" using True by simp linarith
    ultimately have "q < 2 ^ bitlen ?n" by linarith
    then show ?thesis using True by (simp add: ilog2_def pow2_nat)
  next
    case False
    let ?n = "nat (\<lceil>1 / q\<rceil> - 1)"
    have "1 < 1 / q" using False assms by simp
    then have c: "2 \<le> \<lceil>1 / q\<rceil>" by linarith
    then have n: "0 < ?n" by simp
    from c have "0 \<le> \<lceil>1 / q\<rceil> - 1" by linarith
    then have "real ?n = of_int (\<lceil>1 / q\<rceil> - 1)" by (rule of_nat_nat)
    then have rn: "real ?n = of_int \<lceil>1 / q\<rceil> - 1" by simp
    have "2 ^ (bitlen ?n - 1) \<le> ?n" using bitlen_bounds [OF n] by simp
    then have "(2::real) ^ (bitlen ?n - 1) \<le> real ?n"
      by (metis of_nat_le_iff of_nat_numeral of_nat_power)
    moreover note rn
    moreover have "of_int \<lceil>1 / q\<rceil> - 1 < 1 / q" by linarith
    ultimately have "2 ^ (bitlen ?n - 1) < 1 / q" by linarith
    then have "q < 1 / 2 ^ (bitlen ?n - 1)"
      using assms by (simp add: field_simps)
    moreover have "- int (bitlen ?n) + 1 = - int (bitlen ?n - 1)"
      using bitlen_pos [OF n] by simp
    ultimately show ?thesis using False by (simp add: ilog2_def pow2_neg_nat del: of_nat_diff)
  qed
qed

lemma ilog2_unique:
  assumes "pow2 e \<le> q" and "q < pow2 (e + 1)"
  shows "ilog2 q = e"
proof -
  have q: "0 < q" using assms(1) pow2_pos [of e] by linarith
  have "pow2 (ilog2 q) < pow2 (e + 1)"
    using ilog2_bounds(1) [OF q] assms(2) by linarith
  then have "ilog2 q < e + 1" by (simp add: pow2_less_iff)
  moreover have "pow2 e < pow2 (ilog2 q + 1)"
    using ilog2_bounds(2) [OF q] assms(1) by linarith
  then have "e < ilog2 q + 1" by (simp add: pow2_less_iff)
  ultimately show ?thesis by linarith
qed

lemma rne_of_int: "rne (of_int k) = k"
  by (simp add: rne_def)

lemma rne_error: "\<bar>of_int (rne x) - x\<bar> \<le> 1 / 2"
proof -
  have "of_int \<lfloor>x\<rfloor> \<le> x" "x < of_int \<lfloor>x\<rfloor> + 1" by linarith+
  then show ?thesis by (auto simp: rne_def Let_def)
qed

lemma rne_nonneg: "0 \<le> x \<Longrightarrow> 0 \<le> rne x"
  by (auto simp: rne_def Let_def)

lemma round64_normal:
  assumes "pow2 e \<le> \<bar>q\<bar>" and "\<bar>q\<bar> < pow2 (e + 1)" and "- 1022 \<le> e"
  shows "round64 q =
     (if 2 ^ 1024 \<le> of_int (rne (\<bar>q\<bar> / pow2 (e - 52))) * pow2 (e - 52)
      then (if 0 < q then PInf else NInf)
      else Finite (if 0 < q then of_int (rne (\<bar>q\<bar> / pow2 (e - 52))) * pow2 (e - 52)
                   else - (of_int (rne (\<bar>q\<bar> / pow2 (e - 52))) * pow2 (e - 52))))"
proof -
  have "0 < \<bar>q\<bar>" using assms(1) pow2_pos [of e] by linarith
  then have q: "q \<noteq> 0" by simp
  have "ilog2 \<bar>q\<bar> = e" using assms(1,2) by (rule ilog2_unique)
  then have m: "max (ilog2 \<bar>q\<bar>) (- 1022) = e" using assms(3) by simp
  show ?thesis unfolding round64_def Let_def m by (rule if_not_P [OF q])
qed

lemma round64_error:
  assumes "pow2 e \<le> \<bar>q\<bar>" and "\<bar>q\<bar> < pow2 (e + 1)" and "- 1022 \<le> e" and "e \<le> 1022"
  shows "\<exists>r. round64 q = Finite r \<and> \<bar>r - q\<bar> \<le> \<bar>q\<bar> / 2 ^ 53 \<and> (0 < q \<longrightarrow> 0 \<le> r) \<and> (q < 0 \<longrightarrow> r \<le> 0)"
proof -
  define a where "a = \<bar>q\<bar>"
  define u where "u = pow2 (e - 52)"
  define m where "m = rne (a / u)"
  define r where "r = real_of_int m * u"
  have u: "0 < u" by (simp add: u_def)
  have a: "0 < a" using assms(1) pow2_pos [of e] unfolding a_def by linarith
  have "r - a = (of_int m - a / u) * u" using u by (simp add: r_def left_diff_distrib)
  then have "\<bar>r - a\<bar> = \<bar>of_int m - a / u\<bar> * u" using u by (simp add: abs_mult)
  also have "\<dots> \<le> 1 / 2 * u"
    unfolding m_def using u by (intro mult_right_mono rne_error) simp
  finally have err: "\<bar>r - a\<bar> \<le> u / 2" by simp
  have "u = pow2 e / 2 ^ 52" by (simp add: u_def pow2_diff pow2_nat [of 52, simplified])
  then have u2: "u / 2 = pow2 e / 2 ^ 53" by simp
  have "pow2 e / 2 ^ 53 \<le> a / 2 ^ 53"
    using assms(1) unfolding a_def by (simp add: divide_right_mono)
  then have rel: "\<bar>r - a\<bar> \<le> a / 2 ^ 53" using err u2 by linarith
  have "pow2 (e + 1) \<le> pow2 1023" using assms(4) by (intro pow2_mono) simp
  then have b1: "pow2 (e + 1) \<le> 2 ^ 1023" by (simp add: pow2_nat [of 1023, simplified])
  have "pow2 e \<le> pow2 1022" using assms(4) by (rule pow2_mono)
  then have b2: "pow2 e \<le> 2 ^ 1022" by (simp add: pow2_nat [of 1022, simplified])
  have b3: "pow2 e / 2 ^ 53 \<le> pow2 e" using pow2_pos [of e] by (simp add: field_simps)
  have "r \<le> a + u / 2" using err by linarith
  also have "\<dots> < pow2 (e + 1) + pow2 e" using assms(2) u2 b3 unfolding a_def by linarith
  also have "\<dots> \<le> 2 ^ 1023 + 2 ^ 1022" using b1 b2 by linarith
  also have "\<dots> \<le> (2 ^ 1024 :: real)" by simp
  finally have "\<not> 2 ^ 1024 \<le> r" by simp
  then have rq: "round64 q = Finite (if 0 < q then r else - r)"
    using round64_normal [OF assms(1-3)] unfolding r_def m_def a_def u_def by (simp only: if_False)
  have r0: "0 \<le> r" unfolding r_def m_def using a u by (simp add: rne_nonneg)
  show ?thesis
  proof (cases "0 < q")
    case True
    then have "a = q" by (simp add: a_def)
    then show ?thesis using rq rel r0 True by simp
  next
    case False
    then have "a = - q" by (simp add: a_def)
    then have "\<bar>- r - q\<bar> = \<bar>r - a\<bar>" by (simp add: abs_if)
    then show ?thesis using rq rel r0 False \<open>a = - q\<close> by simp
  qed
qed

lemma round64_of_int_exact:
  assumes "\<bar>i\<bar> < 2 ^ 53"
  shows "round64 (of_int i) = Finite (of_int i)"
proof (cases "i = 0")
  case True
  then show ?thesis by (simp add: round64_def)
next
  case False
  define q where "q = (of_int i :: real)"
  define e where "e = ilog2 \<bar>q\<bar>"
  have q: "0 < \<bar>q\<bar>" using False by (simp add: q_def)
  have lo: "pow2 e \<le> \<bar>q\<bar>" and hi: "\<bar>q\<bar> < pow2 (e + 1)"
    using ilog2_bounds [OF q] by (simp_all add: e_def)
  have qi: "\<bar>q\<bar> = of_int \<bar>i\<bar>" by (simp add: q_def)
  have "1 \<le> \<bar>i\<bar>" using False by simp
  then have "(1::real) \<le> \<bar>q\<bar>" unfolding qi by (simp only: of_int_1_le_iff)
  then have "pow2 0 < pow2 (e + 1)" using hi by (simp add: pow2_def)
  then have e0: "0 \<le> e" by (simp add: pow2_less_iff)
  have q53: "\<bar>q\<bar> < 2 ^ 53" unfolding qi using assms by (simp only: of_int_less_numeral_power_cancel_iff)
  then have "pow2 e < pow2 53" using lo by (simp add: pow2_nat [of 53, simplified])
  then have e52: "e \<le> 52" by (simp add: pow2_less_iff)
  define k where "k = nat (52 - e)"
  have ek: "e - 52 = - int k" using e52 by (simp add: k_def)
  have u: "pow2 (e - 52) = 1 / 2 ^ k" by (simp only: ek pow2_neg_nat)
  have d: "\<bar>q\<bar> / pow2 (e - 52) = of_int (\<bar>i\<bar> * 2 ^ k)" by (simp add: u qi)
  have r: "of_int (rne (\<bar>q\<bar> / pow2 (e - 52))) * pow2 (e - 52) = \<bar>q\<bar>"
    unfolding d rne_of_int by (simp add: u qi)
  have "\<bar>q\<bar> < 2 ^ 1024"
    using q53 power_strict_increasing [of 53 1024 "2::real"] by linarith
  then have "\<not> 2 ^ 1024 \<le> \<bar>q\<bar>" by simp
  then have "round64 q = Finite (if 0 < q then \<bar>q\<bar> else - \<bar>q\<bar>)"
    using round64_normal [OF lo hi] e0 unfolding r by (simp only: if_False)
  then show ?thesis unfolding q_def by (simp add: abs_if)
qed

lemma close_to_weaken: "close_to e x y \<Longrightarrow> e \<le> e' \<Longrightarrow> close_to e' x y"
  unfolding close_to_def by (meson abs_ge_zero mult_right_mono order_trans)

lemma close_to_bounds:
  assumes "close_to e x y" and "e \<le> 1 / 2"
  shows "\<bar>x\<bar> / 2 \<le> \<bar>y\<bar>" and "\<bar>y\<bar> \<le> 2 * \<bar>x\<bar>"
proof -
  have "e * \<bar>x\<bar> \<le> 1 / 2 * \<bar>x\<bar>" using assms(2) by (intro mult_right_mono) simp_all
  then have "\<bar>y - x\<bar> \<le> \<bar>x\<bar> / 2" using assms(1) unfolding close_to_def by linarith
  then show "\<bar>x\<bar> / 2 \<le> \<bar>y\<bar>" and "\<bar>y\<bar> \<le> 2 * \<bar>x\<bar>" by linarith+
qed

lemma close_to_mult:
  assumes "close_to e1 x y" and "close_to e2 x' y'" and "0 \<le> e1" and "0 \<le> e2"
  shows "close_to (e1 + e2 + e1 * e2) (x * x') (y * y')"
proof -
  have a: "\<bar>y - x\<bar> \<le> e1 * \<bar>x\<bar>" and b: "\<bar>y' - x'\<bar> \<le> e2 * \<bar>x'\<bar>"
    using assms(1,2) by (simp_all add: close_to_def)
  have "y * y' - x * x' = (y - x) * x' + x * (y' - x') + (y - x) * (y' - x')"
    by (simp add: algebra_simps)
  then have "\<bar>y * y' - x * x'\<bar> \<le> \<bar>(y - x) * x'\<bar> + \<bar>x * (y' - x')\<bar> + \<bar>(y - x) * (y' - x')\<bar>"
    by linarith
  then have t: "\<bar>y * y' - x * x'\<bar> \<le> \<bar>y - x\<bar> * \<bar>x'\<bar> + \<bar>x\<bar> * \<bar>y' - x'\<bar> + \<bar>y - x\<bar> * \<bar>y' - x'\<bar>"
    by (simp only: abs_mult)
  have 1: "\<bar>y - x\<bar> * \<bar>x'\<bar> \<le> (e1 * \<bar>x\<bar>) * \<bar>x'\<bar>"
    using a by (rule mult_right_mono) simp
  have 2: "\<bar>x\<bar> * \<bar>y' - x'\<bar> \<le> \<bar>x\<bar> * (e2 * \<bar>x'\<bar>)"
    using b by (rule mult_left_mono) simp
  have 3: "\<bar>y - x\<bar> * \<bar>y' - x'\<bar> \<le> (e1 * \<bar>x\<bar>) * (e2 * \<bar>x'\<bar>)"
    using a b by (rule mult_mono) (simp_all add: assms(3))
  have "\<bar>y * y' - x * x'\<bar> \<le> (e1 * \<bar>x\<bar>) * \<bar>x'\<bar> + \<bar>x\<bar> * (e2 * \<bar>x'\<bar>) + (e1 * \<bar>x\<bar>) * (e2 * \<bar>x'\<bar>)"
    using t 1 2 3 by linarith
  also have "\<dots> = (e1 + e2 + e1 * e2) * \<bar>x * x'\<bar>"
    by (simp add: abs_mult algebra_simps)
  finally show ?thesis by (simp add: close_to_def)
qed

lemma close_to_trans:
  assumes "close_to e1 x y" and "close_to e2 y z" and "0 \<le> e1" and "0 \<le> e2"
  shows "close_to (e1 + e2 + e1 * e2) x z"
proof -
  have a: "\<bar>y - x\<bar> \<le> e1 * \<bar>x\<bar>" and b: "\<bar>z - y\<bar> \<le> e2 * \<bar>y\<bar>"
    using assms(1,2) by (simp_all add: close_to_def)
  have "\<bar>y\<bar> \<le> \<bar>x\<bar> + e1 * \<bar>x\<bar>" using a by linarith
  then have "e2 * \<bar>y\<bar> \<le> e2 * (\<bar>x\<bar> + e1 * \<bar>x\<bar>)" using assms(4) by (rule mult_left_mono)
  then have "\<bar>z - x\<bar> \<le> e1 * \<bar>x\<bar> + e2 * (\<bar>x\<bar> + e1 * \<bar>x\<bar>)" using a b by linarith
  also have "\<dots> = (e1 + e2 + e1 * e2) * \<bar>x\<bar>" by (simp add: algebra_simps)
  finally show ?thesis by (simp add: close_to_def)
qed

lemma close_to_inverse:
  assumes "close_to e x y" and "0 \<le> e" and "e < 1" and "x \<noteq> 0"
  shows "close_to (e / (1 - e)) (1 / x) (1 / y)" and "y \<noteq> 0"
proof -
  have a: "\<bar>y - x\<bar> \<le> e * \<bar>x\<bar>" using assms(1) by (simp add: close_to_def)
  have x: "0 < \<bar>x\<bar>" using assms(4) by simp
  have "\<bar>x\<bar> - e * \<bar>x\<bar> \<le> \<bar>y\<bar>" using a by linarith
  then have ylo: "(1 - e) * \<bar>x\<bar> \<le> \<bar>y\<bar>" by (simp add: algebra_simps)
  have pos: "0 < (1 - e) * \<bar>x\<bar>" using assms(3) x by simp
  then have y: "0 < \<bar>y\<bar>" using ylo by linarith
  then show "y \<noteq> 0" by auto
  then have "1 / y - 1 / x = (x - y) / (x * y)"
    using assms(4) by (simp add: field_simps)
  then have "\<bar>1 / y - 1 / x\<bar> = \<bar>y - x\<bar> / (\<bar>x\<bar> * \<bar>y\<bar>)"
    by (simp add: abs_mult abs_minus_commute)
  also have "\<dots> \<le> (e * \<bar>x\<bar>) / (\<bar>x\<bar> * \<bar>y\<bar>)"
    using a x y by (intro divide_right_mono) simp_all
  also have "\<dots> = e / \<bar>y\<bar>" using x by simp
  also have "\<dots> \<le> e / ((1 - e) * \<bar>x\<bar>)"
  proof -
    have "0 < \<bar>y\<bar> * ((1 - e) * \<bar>x\<bar>)" using y pos by (rule mult_pos_pos)
    with ylo assms(2) show ?thesis by (rule divide_left_mono)
  qed
  also have "\<dots> = e / (1 - e) * \<bar>1 / x\<bar>" by simp
  finally show "close_to (e / (1 - e)) (1 / x) (1 / y)" by (simp add: close_to_def)
qed

lemma round64_close:
  assumes "1 / 2 ^ 1022 \<le> \<bar>q\<bar>" and "\<bar>q\<bar> < 2 ^ 1023"
  shows "\<exists>r. round64 q = Finite r \<and> close_to (1 / 2 ^ 53) q r"
proof -
  define e where "e = ilog2 \<bar>q\<bar>"
  have "(0::real) < 1 / 2 ^ 1022" by simp
  then have q: "0 < \<bar>q\<bar>" using assms(1) by (rule less_le_trans)
  have lo: "pow2 e \<le> \<bar>q\<bar>" and hi: "\<bar>q\<bar> < pow2 (e + 1)"
    using ilog2_bounds [OF q] by (simp_all add: e_def)
  have "pow2 (- 1022) = 1 / 2 ^ 1022" using pow2_neg_nat [of 1022] by simp
  then have "pow2 (- 1022) < pow2 (e + 1)" using assms(1) hi by linarith
  then have e1: "- 1022 \<le> e" by (simp add: pow2_less_iff)
  have "pow2 1023 = 2 ^ 1023" using pow2_nat [of 1023] by simp
  then have "pow2 e < pow2 1023" using assms(2) lo by linarith
  then have e2: "e \<le> 1022" by (simp add: pow2_less_iff)
  from round64_error [OF lo hi e1 e2] show ?thesis
    by (auto simp: close_to_def)
qed

lemma f64_of_int_close:
  assumes "i \<noteq> 0" and "\<bar>i\<bar> < 2 ^ 63"
  shows "\<exists>a. f64_of_int i = Finite a \<and> close_to (1 / 2 ^ 53) (of_int i) a"
proof -
  have "1 \<le> \<bar>i\<bar>" using assms(1) by simp
  then have "(1::real) \<le> \<bar>of_int i\<bar>" by (metis of_int_1_le_iff of_int_abs)
  moreover have "(1::real) / 2 ^ 1022 \<le> 1" by simp
  ultimately have lo: "1 / 2 ^ 1022 \<le> \<bar>real_of_int i\<bar>" by linarith
  have "\<bar>real_of_int i\<bar> < 2 ^ 63"
    using assms(2) by (metis of_int_abs of_int_less_numeral_power_cancel_iff)
  moreover have "(2::real) ^ 63 \<le> 2 ^ 1023" by (rule power_increasing) simp_all
  ultimately have hi: "\<bar>real_of_int i\<bar> < 2 ^ 1023" by linarith
  show ?thesis unfolding f64_of_int_def using lo hi by (rule round64_close)
qed

lemma loss_formula_close:
  assumes "0 < n" and "n < 2 ^ 63" and "\<bar>n - r\<bar> < 2 ^ 63"
  shows "\<exists>d. loss_formula n r = Finite d \<and> close_to (1 / 2 ^ 50) (exact_loss n r) d"
proof -
  define u :: real where "u = 1 / 2 ^ 53"
  have u0: "0 \<le> u" and u1: "u < 1" by (simp_all add: u_def)
  have n0: "n \<noteq> 0" and nb: "\<bar>n\<bar> < 2 ^ 63" using assms(1,2) by simp_all
  from f64_of_int_close [OF n0 nb] obtain b where
    b: "f64_of_int n = Finite b" and cb: "close_to u (of_int n) b"
    unfolding u_def by blast
  have rn0: "real_of_int n \<noteq> 0" using n0 by simp
  have b0: "b \<noteq> 0" and ib: "close_to (u / (1 - u)) (1 / of_int n) (1 / b)"
    using close_to_inverse [OF cb u0 u1 rn0] by simp_all
  show ?thesis
  proof (cases "n - r = 0")
    case True
    have r0: "round64 0 = Finite 0" by (simp add: round64_def)
    have z: "f64_of_int (n - r) = Finite 0" using True by (simp add: f64_of_int_def r0)
    have "loss_formula n r = Finite 0"
      unfolding loss_formula_def z b using b0 by (simp add: r0)
    then show ?thesis using True by (simp add: close_to_def exact_loss_def)
  next
    case False
    define D where "D = n - r"
    have D0: "D \<noteq> 0" and Db: "\<bar>D\<bar> < 2 ^ 63" using False assms(3) by (simp_all add: D_def)
    from f64_of_int_close [OF D0 Db] obtain a where
      a: "f64_of_int D = Finite a" and ca: "close_to u (of_int D) a"
      unfolding u_def by blast
    define x where "x = real_of_int D / of_int n"
    have "close_to (u + u / (1 - u) + u * (u / (1 - u))) (of_int D * (1 / of_int n)) (a * (1 / b))"
      using ca ib u0 u1 by (intro close_to_mult) simp_all
    moreover have "u + u / (1 - u) + u * (u / (1 - u)) \<le> 3 * u" by (simp add: u_def)
    ultimately have cq: "close_to (3 * u) x (a / b)"
      unfolding x_def using close_to_weaken by fastforce
    have "1 \<le> \<bar>D\<bar>" using D0 by simp
    then have D1: "(1::real) \<le> \<bar>of_int D\<bar>" by (metis of_int_1_le_iff of_int_abs)
    have D63: "\<bar>real_of_int D\<bar> < 2 ^ 63"
      using Db by (metis of_int_abs of_int_less_numeral_power_cancel_iff)
    have n1: "(1::real) \<le> of_int n" using assms(1) by simp
    have n63: "real_of_int n < 2 ^ 63" using assms(2) by simp
    have ax: "\<bar>x\<bar> = \<bar>of_int D\<bar> / of_int n" using n1 by (simp add: x_def)
    have "1 / 2 ^ 63 \<le> 1 / real_of_int n"
      using n1 n63 by (intro divide_left_mono mult_pos_pos) simp_all
    also have "\<dots> \<le> \<bar>of_int D\<bar> / of_int n" using D1 n1 by (intro divide_right_mono) simp_all
    finally have xlo: "1 / 2 ^ 63 \<le> \<bar>x\<bar>" by (simp only: ax)
    have "\<bar>of_int D\<bar> / real_of_int n \<le> \<bar>of_int D\<bar> / 1"
      using n1 by (intro divide_left_mono) simp_all
    then have xhi: "\<bar>x\<bar> < 2 ^ 63" using D63 by (simp add: ax)
    have qb: "\<bar>x\<bar> / 2 \<le> \<bar>a / b\<bar>" "\<bar>a / b\<bar> \<le> 2 * \<bar>x\<bar>"
      using close_to_bounds [OF cq] by (simp_all add: u_def)
    have q1: "1 / 2 ^ 1022 \<le> \<bar>a / b\<bar>"
    proof -
      have "(1::real) / 2 ^ 1022 \<le> 1 / 2 ^ 63 / 2" by simp
      also have "\<dots> \<le> \<bar>x\<bar> / 2" using xlo by (rule divide_right_mono) simp
      also have "\<dots> \<le> \<bar>a / b\<bar>" by (rule qb(1))
      finally show ?thesis .
    qed
    have q2: "\<bar>a / b\<bar> < 2 ^ 1023"
    proof -
      have "\<bar>a / b\<bar> \<le> 2 * \<bar>x\<bar>" by (rule qb(2))
      also have "\<dots> < 2 * 2 ^ 63" using xhi by simp
      also have "\<dots> \<le> (2::real) ^ 1023" by simp
      finally show ?thesis .
    qed
    from round64_close [OF q1 q2] obtain c where
      c: "round64 (a / b) = Finite c" and cc: "close_to u (a / b) c"
      unfolding u_def by blast
    have "close_to (3 * u + u + 3 * u * u) x c"
      using cq cc u0 by (intro close_to_trans) simp_all
    moreover have "3 * u + u + 3 * u * u \<le> 5 * u" by (simp add: u_def)
    ultimately have cx: "close_to (5 * u) x c" by (rule close_to_weaken)
    have "close_to 0 100 100" by (simp add: close_to_def)
    with cx have "close_to (5 * u + 0 + 5 * u * 0) (x * 100) (c * 100)"
      using u0 by (intro close_to_mult) simp_all
    then have cy: "close_to (5 * u) (x * 100) (c * 100)" by simp
    have yb: "\<bar>x * 100\<bar> / 2 \<le> \<bar>c * 100\<bar>" "\<bar>c * 100\<bar> \<le> 2 * \<bar>x * 100\<bar>"
      using close_to_bounds [OF cy] by (simp_all add: u_def)
    have y1: "1 / 2 ^ 1022 \<le> \<bar>c * 100\<bar>"
    proof -
      have "(1::real) / 2 ^ 1022 \<le> 1 / 2 ^ 63 * 100 / 2" by simp
      also have "\<dots> \<le> \<bar>x * 100\<bar> / 2" using xlo by (simp add: abs_mult)
      also have "\<dots> \<le> \<bar>c * 100\<bar>" by (rule yb(1))
      finally show ?thesis .
    qed
    have y2: "\<bar>c * 100\<bar> < 2 ^ 1023"
    proof -
      have "\<bar>c * 100\<bar> \<le> 2 * \<bar>x * 100\<bar>" by (rule yb(2))
      also have "\<dots> < 2 * (2 ^ 63 * 100)" using xhi by (simp add: abs_mult)
      also have "\<dots> \<le> (2::real) ^ 1023" by simp
      finally show ?thesis .
    qed
    from round64_close [OF y1 y2] obtain d where
      d: "round64 (c * 100) = Finite d" and cd: "close_to u (c * 100) d"
      unfolding u_def by blast
    have "close_to (5 * u + u + 5 * u * u) (x * 100) d"
      using cy cd u0 by (intro close_to_trans) simp_all
    moreover have "5 * u + u + 5 * u * u \<le> 1 / 2 ^ 50" by (simp add: u_def)
    ultimately have "close_to (1 / 2 ^ 50) (x * 100) d" by (rule close_to_weaken)
    moreover have "loss_formula n r = Finite d"
      using b0 by (simp add: loss_formula_def D_def [symmetric] a b c d)
    ultimately show ?thesis unfolding x_def D_def exact_loss_def by blast
  qed
qed

subsection \<open>The square root\<close>

lemma isqrt_bounds: "isqrt n * isqrt n \<le> n \<and> n < (isqrt n + 1) * (isqrt n + 1)"
proof (induction n rule: isqrt.induct)
  case (1 n)
  show ?case
  proof (cases "n < 2")
    case True
    then have "isqrt n = n" by (subst isqrt.simps) simp
    moreover from True have "n = 0 \<or> n = 1" by linarith
    ultimately show ?thesis by auto
  next
    case False
    define r0 where "r0 = isqrt (n div 4)"
    from "1.IH" [OF False] have lo: "r0 * r0 \<le> n div 4" and hi: "n div 4 < (r0 + 1) * (r0 + 1)"
      by (simp_all add: r0_def)
    have l2: "(2 * r0) * (2 * r0) \<le> n"
    proof -
      have "(2 * r0) * (2 * r0) = 4 * (r0 * r0)" by simp
      also have "\<dots> \<le> 4 * (n div 4)" using lo by simp
      also have "\<dots> \<le> n" by simp
      finally show ?thesis .
    qed
    have h2: "n < (2 * r0 + 2) * (2 * r0 + 2)"
    proof -
      have "n < 4 * (n div 4 + 1)" by simp
      also have "\<dots> \<le> 4 * ((r0 + 1) * (r0 + 1))" using hi by simp
      also have "\<dots> = (2 * r0 + 2) * (2 * r0 + 2)" by (simp add: algebra_simps)
      finally show ?thesis .
    qed
    have eq: "isqrt n = (if (2 * r0 + 1) * (2 * r0 + 1) \<le> n then 2 * r0 + 1 else 2 * r0)"
      using False by (subst isqrt.simps) (simp add: r0_def Let_def)
    show ?thesis
    proof (cases "(2 * r0 + 1) * (2 * r0 + 1) \<le> n")
      case True
      then show ?thesis using h2 eq by (simp add: algebra_simps)
    next
      case False
      then show ?thesis using l2 eq by (simp add: algebra_simps)
    qed
  qed
qed

lemma floor_sqrt_bounds:
  assumes "0 \<le> V"
  shows "0 \<le> \<lfloor>sqrt (of_int V)\<rfloor>"
    and "\<lfloor>sqrt (of_int V)\<rfloor> * \<lfloor>sqrt (of_int V)\<rfloor> \<le> V"
    and "V < (\<lfloor>sqrt (of_int V)\<rfloor> + 1) * (\<lfloor>sqrt (of_int V)\<rfloor> + 1)"
proof -
  define q where "q = (of_int V :: real)"
  define s where "s = \<lfloor>sqrt q\<rfloor>"
  have q: "0 \<le> q" using assms by (simp add: q_def)
  have s0: "0 \<le> s" using q by (simp add: s_def)
  have lo: "of_int s \<le> sqrt q" and hi: "sqrt q < of_int s + 1"
    unfolding s_def by linarith+
  have "(of_int s)\<^sup>2 \<le> (sqrt q)\<^sup>2"
    using lo s0 by (intro power_mono) simp_all
  then have "real_of_int (s * s) \<le> of_int V"
    using q by (simp add: power2_eq_square q_def)
  then have a: "s * s \<le> V" by (simp only: of_int_le_iff)
  have "(sqrt q)\<^sup>2 < (of_int s + 1)\<^sup>2"
    using hi q by (intro power_strict_mono) simp_all
  then have "real_of_int V < of_int ((s + 1) * (s + 1))"
    using q by (simp add: power2_eq_square q_def)
  then have b: "V < (s + 1) * (s + 1)" by (simp only: of_int_less_iff)
  show "0 \<le> \<lfloor>sqrt (of_int V)\<rfloor>"
    and "\<lfloor>sqrt (of_int V)\<rfloor> * \<lfloor>sqrt (of_int V)\<rfloor> \<le> V"
    and "V < (\<lfloor>sqrt (of_int V)\<rfloor> + 1) * (\<lfloor>sqrt (of_int V)\<rfloor> + 1)"
    using s0 a b unfolding s_def q_def by simp_all
qed

lemma square_less_imp_less_int:
  fixes a b :: int
  assumes "a * a < b * b" and "0 \<le> b"
  shows "a < b"
proof (rule ccontr)
  assume "\<not> a < b"
  then have "b \<le> a" by simp
  then have "b * b \<le> a * a" using assms(2) by (intro mult_mono) simp_all
  with assms(1) show False by simp
qed

lemma round_sqrt_int:
  assumes "0 < V" and "V < 2 ^ 52"
  shows "\<exists>k m'. round_sqrt (of_int V) = Finite (of_int m' / 2 ^ k) \<and>
           \<lfloor>sqrt (of_int V)\<rfloor> * 2 ^ k \<le> m' \<and> m' < (\<lfloor>sqrt (of_int V)\<rfloor> + 1) * 2 ^ k"
proof -
  define q where "q = (of_int V :: real)"
  define e where "e = ilog2 q div 2"
  define u where "u = pow2 (e - 52)"
  define x where "x = q / (u * u)"
  define m where "m = int (isqrt (nat \<lfloor>x\<rfloor>))"
  define c where "c = (of_int m + 1 / 2) * (of_int m + 1 / 2 :: real)"
  define m' where "m' = (if x < c then m else if c < x then m + 1 else if even m then m else m + 1)"
  define s where "s = \<lfloor>sqrt q\<rfloor>"
  have rs: "round_sqrt q = Finite (of_int m' * u)"
    unfolding round_sqrt_def Let_def m'_def c_def m_def x_def u_def e_def ..
  have q1: "1 \<le> q" using assms(1) by (simp add: q_def)
  then have q0: "0 < q" by simp
  have lo: "pow2 (ilog2 q) \<le> q" and hi: "q < pow2 (ilog2 q + 1)"
    using ilog2_bounds [OF q0] by simp_all
  have "pow2 0 < pow2 (ilog2 q + 1)" using hi q1 by (simp add: pow2_def)
  then have L0: "0 \<le> ilog2 q" by (simp add: pow2_less_iff)
  have "q < 2 ^ 52" using assms(2) unfolding q_def by (simp only: of_int_less_numeral_power_cancel_iff)
  then have "pow2 (ilog2 q) < pow2 52" using lo by (simp add: pow2_nat [of 52, simplified])
  then have L51: "ilog2 q \<le> 51" by (simp add: pow2_less_iff)
  have e0: "0 \<le> e" and e25: "e \<le> 25" using L0 L51 by (simp_all add: e_def)
  define k where "k = nat (52 - e)"
  have k27: "27 \<le> k" and ek: "e - 52 = - int k" using e0 e25 by (simp_all add: k_def)
  have u: "u = 1 / 2 ^ k" unfolding u_def by (simp only: ek pow2_neg_nat)
  define X where "X = V * (2 ^ k * 2 ^ k)"
  have x: "x = of_int X" by (simp add: x_def u X_def q_def)
  have X0: "0 \<le> X" using assms(1) by (simp add: X_def)
  have fx: "nat \<lfloor>x\<rfloor> = nat X" by (simp add: x)
  have "isqrt (nat X) * isqrt (nat X) \<le> nat X"
    and "nat X < (isqrt (nat X) + 1) * (isqrt (nat X) + 1)"
    using isqrt_bounds [of "nat X"] by simp_all
  then have "int (isqrt (nat X) * isqrt (nat X)) \<le> int (nat X)"
    and "int (nat X) < int ((isqrt (nat X) + 1) * (isqrt (nat X) + 1))"
    by (simp_all only: of_nat_le_iff of_nat_less_iff)
  then have mlo: "m * m \<le> X" and mhi: "X < (m + 1) * (m + 1)"
    using X0 by (simp_all add: m_def fx algebra_simps)
  have m0: "0 \<le> m" by (simp add: m_def)
  have s0: "0 \<le> s" and slo: "s * s \<le> V" and shi: "V < (s + 1) * (s + 1)"
    using floor_sqrt_bounds [of V] assms(1) by (simp_all add: s_def q_def)
  have "s * s < 2 ^ 26 * 2 ^ 26" using slo assms(2) by simp
  then have s26: "s < 2 ^ 26" by (rule square_less_imp_less_int) simp
  define T where "T = (s + 1) * 2 ^ k"
  have p0: "(0::int) < 2 ^ k" by simp
  have "(s * 2 ^ k) * (s * 2 ^ k) = (s * s) * (2 ^ k * 2 ^ k)" by (simp add: algebra_simps)
  also have "\<dots> \<le> X" unfolding X_def using slo by (intro mult_right_mono) simp_all
  finally have "(s * 2 ^ k) * (s * 2 ^ k) < (m + 1) * (m + 1)" using mhi by simp
  moreover have "0 \<le> m + 1" using m0 by simp
  ultimately have "s * 2 ^ k < m + 1" by (rule square_less_imp_less_int)
  then have lower: "s * 2 ^ k \<le> m" by simp
  have TT: "T * T = ((s + 1) * (s + 1)) * (2 ^ k * 2 ^ k)" by (simp add: T_def algebra_simps)
  have "V + 1 \<le> (s + 1) * (s + 1)" using shi by simp
  then have "(V + 1) * (2 ^ k * 2 ^ k) \<le> T * T"
    unfolding TT by (intro mult_right_mono) simp_all
  then have XT: "X + 2 ^ k * 2 ^ k \<le> T * T" by (simp add: X_def algebra_simps)
  have T0: "0 \<le> T" using s0 by (simp add: T_def)
  have "(0::int) < 2 ^ k * 2 ^ k" using p0 by simp
  then have "m * m < T * T" using mlo XT by linarith
  then have mT: "m < T" using T0 by (rule square_less_imp_less_int)
  have upper: "m' < T"
  proof (cases "m' = m")
    case True
    then show ?thesis using mT by simp
  next
    case False
    then have m'1: "m' = m + 1" and cx: "c \<le> x" by (auto simp: m'_def split: if_splits)
    have "real_of_int (m * m + m) < c" by (simp add: c_def algebra_simps)
    then have "real_of_int (m * m + m) < of_int X" using cx x by simp
    then have mm: "m * m + m < X" by (simp only: of_int_less_iff)
    show ?thesis
    proof (rule ccontr)
      assume "\<not> m' < T"
      then have "m = T - 1" using m'1 mT by simp
      then have "(T - 1) * (T - 1) + (T - 1) < X" using mm by simp
      moreover have "(T - 1) * (T - 1) + (T - 1) = T * T - T" by (simp add: algebra_simps)
      ultimately have "T * T - T < X" by simp
      then have "2 ^ k * 2 ^ k < T" using XT by simp
      then have "2 ^ k * 2 ^ k < (s + 1) * 2 ^ k" by (simp add: T_def)
      then have "(2::int) ^ k < s + 1" by simp
      moreover have "(2::int) ^ 26 \<le> 2 ^ k" using k27 by (intro power_increasing) simp_all
      ultimately show False using s26 by simp
    qed
  qed
  have "s * 2 ^ k \<le> m'" using lower by (auto simp: m'_def)
  moreover have "round_sqrt (of_int V) = Finite (of_int m' / 2 ^ k)"
    using rs by (simp add: u q_def)
  ultimately show ?thesis using upper unfolding T_def s_def q_def by blast
qed

lemma sqrt_trunc_small:
  assumes "0 \<le> V" and "V < 2 ^ 52"
  shows "f64_to_int64 (f64_sqrt (f64_of_int V)) = word_of_int \<lfloor>sqrt (of_int V)\<rfloor>"
proof (cases "V = 0")
  case True
  then show ?thesis by (simp add: f64_of_int_def round64_def)
next
  case False
  then have V: "0 < V" using assms(1) by simp
  define s where "s = \<lfloor>sqrt (real_of_int V)\<rfloor>"
  have "\<bar>V\<bar> < 2 ^ 53" using assms by simp
  then have c: "f64_of_int V = Finite (of_int V)"
    unfolding f64_of_int_def by (rule round64_of_int_exact)
  from round_sqrt_int [OF V assms(2)] obtain k m' where
    r: "round_sqrt (of_int V) = Finite (of_int m' / 2 ^ k)"
    and lo: "s * 2 ^ k \<le> m'" and hi: "m' < (s + 1) * 2 ^ k"
    unfolding s_def by blast
  have s0: "0 \<le> s" and slo: "s * s \<le> V"
    using floor_sqrt_bounds [of V] assms(1) by (simp_all add: s_def)
  have "real_of_int (s * 2 ^ k) \<le> of_int m'" using lo by (simp only: of_int_le_iff)
  then have a: "of_int s \<le> real_of_int m' / 2 ^ k" by (simp add: field_simps)
  have "real_of_int m' < of_int ((s + 1) * 2 ^ k)" using hi by (simp only: of_int_less_iff)
  then have b: "real_of_int m' / 2 ^ k < of_int s + 1" by (simp add: field_simps)
  have fl: "\<lfloor>real_of_int m' / 2 ^ k\<rfloor> = s" using a b by (rule floor_unique)
  have "(0::real) \<le> of_int s" using s0 by simp
  then have nn: "0 \<le> real_of_int m' / 2 ^ k" using a by linarith
  have "s * s < 2 ^ 26 * 2 ^ 26" using slo assms(2) by simp
  then have "s < 2 ^ 26" by (rule square_less_imp_less_int) simp
  then have rng: "- (2 ^ 63) \<le> s \<and> s < 2 ^ 63" using s0 by simp
  have "f64_sqrt (f64_of_int V) = Finite (of_int m' / 2 ^ k)"
    using V by (simp add: c r)
  then show ?thesis
    using fl nn rng by (simp add: s_def)
qed

subsection \<open>Construction\<close>

lemma NewPinger_loopback:
  "NewPinger resolve_loopback draw_Intn draw_Int63n ''127.0.0.1'' = Inr fresh_pinger"
  by (simp add: NewPinger_def resolve_loopback_def fresh_pinger_def loopback_def isIPv4_def
      To4_def draw_Intn_def draw_Int63n_def timeSliceLen_def)

text \<open>
  Claim C8. \<^verbatim>\<open>NewPinger\<close> fails exactly with the resolver's error when the address does
  not resolve, and no pinger is produced; when the address resolves, a pinger is returned
  that holds the resolved address and the address string.
\<close>

theorem NewPinger_resolution:
  "(\<forall>err. ResolveIPAddr ''ip'' a = Inl err \<longrightarrow>
        (NewPinger ResolveIPAddr Intn Int63n a :: string + 'u Pinger) = Inl err) \<and>
   (\<forall>ipa. ResolveIPAddr ''ip'' a = Inr ipa \<longrightarrow>
        (\<exists>p :: 'u Pinger. NewPinger ResolveIPAddr Intn Int63n a = Inr p \<and>
              ipaddr p = Some ipa \<and> addr p = a))"
  by (simp add: NewPinger_def)

theorem NewPinger_resolution_witness:
  "resolve_loopback ''ip'' ''nowhere'' = Inl ''no such host'' \<and>
   (NewPinger resolve_loopback draw_Intn draw_Int63n ''nowhere'' :: string + calls Pinger)
     = Inl ''no such host'' \<and>
   resolve_loopback ''ip'' ''127.0.0.1'' = Inr loopback \<and>
   (\<exists>p :: calls Pinger. NewPinger resolve_loopback draw_Intn draw_Int63n ''127.0.0.1'' = Inr p \<and>
        ipaddr p = Some loopback \<and> addr p = ''127.0.0.1'')"
  using NewPinger_resolution [of resolve_loopback "''nowhere''" draw_Intn draw_Int63n,
      where ?'u = calls]
    NewPinger_resolution [of resolve_loopback "''127.0.0.1''" draw_Intn draw_Int63n,
      where ?'u = calls]
  by (simp add: resolve_loopback_def)

text \<open>
  Claim C4, as the code has it. A pinger from \<^verbatim>\<open>NewPinger\<close> has the payload size
  \<^verbatim>\<open>timeSliceLen\<close>, 8 bytes, and the exported \<^verbatim>\<open>Size\<close> 0; the only failure of the
  construction is the resolver's, so no payload size is ever rejected.
\<close>

theorem NewPinger_size:
  "(\<forall>p :: 'u Pinger. NewPinger ResolveIPAddr Intn Int63n a = Inr p \<longrightarrow>
        size' p = timeSliceLen \<and> sint (size' p) = 8 \<and> Size p = 0) \<and>
   (\<forall>err. (NewPinger ResolveIPAddr Intn Int63n a :: string + 'u Pinger) = Inl err \<longrightarrow>
        ResolveIPAddr ''ip'' a = Inl err)"
  by (auto simp: NewPinger_def timeSliceLen_def split: sum.splits)

theorem NewPinger_size_witness:
  "NewPinger resolve_loopback draw_Intn draw_Int63n ''127.0.0.1'' = Inr fresh_pinger \<and>
   size' fresh_pinger = timeSliceLen \<and> sint (size' fresh_pinger) = 8 \<and> Size fresh_pinger = 0 \<and>
   (NewPinger resolve_loopback draw_Intn draw_Int63n ''nowhere'' :: string + calls Pinger)
     = Inl ''no such host'' \<and>
   resolve_loopback ''ip'' ''nowhere'' = Inl ''no such host''"
  using NewPinger_size [of resolve_loopback draw_Intn draw_Int63n "''127.0.0.1''",
      where ?'u = calls]
    NewPinger_size [of resolve_loopback draw_Intn draw_Int63n "''nowhere''", where ?'u = calls]
  by (simp add: NewPinger_loopback timeSliceLen_def) (simp add: NewPinger_def resolve_loopback_def)

text \<open>
  Claim C4 as the specification states it fails: the pinger constructed for the loopback
  address has a payload size of 8 bytes, below the 16 bytes of timestamp and tracker.
\<close>

theorem NewPinger_size_counterexample:
  "NewPinger resolve_loopback draw_Intn draw_Int63n ''127.0.0.1'' = Inr fresh_pinger \<and>
   sint (size' fresh_pinger) = 8 \<and> sint (timeSliceLen + trackerLen) = 16 \<and>
   \<not> (timeSliceLen + trackerLen \<le>s size' fresh_pinger)"
  by (simp add: NewPinger_loopback) (simp add: fresh_pinger_def timeSliceLen_def trackerLen_def)

subsection \<open>Statistics leave the pinger alone\<close>

lemma GenerateStats_snd: "snd (GenerateStats p) = p"
  by (simp add: GenerateStats_def Let_def split: prod.splits list.splits)

text \<open>
  Claim C9. \<^verbatim>\<open>GenerateStats\<close> returns the pinger it was given, every field as it was,
  and a second call on the returned pinger gives the same statistics.
\<close>

theorem GenerateStats_frame:
  "snd (GenerateStats p) = p \<and>
   fst (GenerateStats (snd (GenerateStats p))) = fst (GenerateStats p)"
  by (simp add: GenerateStats_snd)

lemma GenerateStats_no_samples:
  "rtts p = [] \<Longrightarrow>
   fst (GenerateStats p) =
     \<lparr> Stats.PacketsRecieve = Pinger.PacketsRecieve p,
       Stats.PacketsSent = Pinger.PacketsSent p,
       PacketsLoss =
         f64_mul (f64_div (f64_of_int64 (Pinger.PacketsSent p - Pinger.PacketsRecieve p))
                          (f64_of_int64 (Pinger.PacketsSent p))) (Finite 100),
       IPAddr = ipaddr p, Addr = addr p, Rtts = [],
       MinRtt = 0, MaxRtt = 0, AvgRtt = 0, StdDevRtt = 0 \<rparr>"
  by (simp add: GenerateStats_def)

lemma f64_of_int64_0: "f64_of_int64 0 = Finite 0"
  by (simp add: f64_of_int64_def f64_of_int_def round64_def)

lemma GenerateStats_scenario: "fst (GenerateStats scenario_pinger) = idle_stats"
  by (simp add: GenerateStats_no_samples f64_of_int64_0 scenario_pinger_def fresh_pinger_def
      idle_stats_def)

text \<open>
  Claim C3, where the code departs from it. With no samples the four round-trip figures
  are 0, as claimed; but for the pinger that has sent nothing the loss is \<open>0 / 0 * 100\<close>,
  which is NaN.
\<close>

theorem GenerateStats_fresh_loss_NaN:
  "rtts fresh_pinger = [] \<and> Pinger.PacketsSent fresh_pinger = 0 \<and>
   fst (GenerateStats fresh_pinger) = idle_stats \<and> PacketsLoss idle_stats = NaN"
  by (simp add: GenerateStats_no_samples f64_of_int64_0 idle_stats_def fresh_pinger_def)

subsection \<open>The loss\<close>

lemma GenerateStats_loss:
  "PacketsLoss (fst (GenerateStats p)) =
     f64_mul (f64_div (f64_of_int64 (Pinger.PacketsSent p - Pinger.PacketsRecieve p))
                      (f64_of_int64 (Pinger.PacketsSent p))) (Finite 100)"
  by (simp add: GenerateStats_def Let_def split: prod.splits list.splits)

lemma loss_no_wrap:
  assumes "0 < sint (Pinger.PacketsSent p)"
    and "sint (Pinger.PacketsSent p) - sint (Pinger.PacketsRecieve p) < 2 ^ 63"
  shows "PacketsLoss (fst (GenerateStats p)) =
     loss_formula (sint (Pinger.PacketsSent p)) (sint (Pinger.PacketsRecieve p))"
proof -
  have "sint (Pinger.PacketsRecieve p) < 2 ^ 63"
    using sint_lt [of "Pinger.PacketsRecieve p"] by simp
  with assms have "sint (Pinger.PacketsSent p - Pinger.PacketsRecieve p) =
      sint (Pinger.PacketsSent p) - sint (Pinger.PacketsRecieve p)"
    by (intro sint_sub_64) linarith+
  then show ?thesis
    by (simp add: GenerateStats_loss loss_formula_def f64_of_int64_def)
qed

lemma round64_two_fifths: "round64 (2 / 5) = Finite (3602879701896397 / 9007199254740992)"
  using round64_normal [of "- 2" "2 / 5"] by (simp add: pow2_def rne_def Let_def)

lemma round64_forty: "round64 (3602879701896397 / 9007199254740992 * 100) = Finite 40"
  using round64_normal [of 5 "3602879701896397 / 9007199254740992 * 100"]
  by (simp add: pow2_def rne_def Let_def)

lemma loss_formula_5_3: "loss_formula 5 3 = Finite 40"
  using round64_forty round64_of_int_exact [of 2] round64_of_int_exact [of 5]
  by (simp add: loss_formula_def f64_of_int_def round64_two_fifths)

lemma round64_third: "round64 (1 / 3) = Finite (6004799503160661 / 18014398509481984)"
  using round64_normal [of "- 2" "1 / 3"] by (simp add: pow2_def rne_def Let_def)

lemma round64_third_100:
  "round64 (6004799503160661 / 18014398509481984 * 100)
     = Finite (2345624805922133 / 70368744177664)"
  using round64_normal [of 5 "6004799503160661 / 18014398509481984 * 100"]
  by (simp add: pow2_def rne_def Let_def)

lemma third_loss:
  "PacketsLoss (fst (GenerateStats third_pinger)) = Finite (2345624805922133 / 70368744177664)"
  using round64_of_int_exact [of 1] round64_of_int_exact [of 3] round64_third_100
  by (simp add: GenerateStats_loss third_pinger_def f64_of_int64_def f64_of_int_def
      round64_third)

lemma round64_least_plus_1: "round64 (- 9223372036854775807) = Finite (- 9223372036854775808)"
  using round64_normal [of 62 "- 9223372036854775807"] by (simp add: pow2_def rne_def Let_def)

lemma round64_least: "round64 (- 9223372036854775808) = Finite (- 9223372036854775808)"
  using round64_normal [of 63 "- 9223372036854775808"] by (simp add: pow2_def rne_def Let_def)

lemma round64_least_100:
  "round64 (- 9223372036854775808 * 100) = Finite (- 922337203685477580800)"
  using round64_normal [of 69 "- 9223372036854775808 * 100"]
  by (simp add: pow2_def rne_def Let_def)

lemma wrap_loss:
  "PacketsLoss (fst (GenerateStats wrap_pinger)) = Finite (- 922337203685477580800)"
  using round64_of_int_exact [of 1] round64_least_100 round64_least
  by (simp add: GenerateStats_loss wrap_pinger_def f64_of_int64_def f64_of_int_def
      round64_least_plus_1)

text \<open>
  Claim C5, as the code has it. For a pinger with a positive sent count \<open>N\<close> and a received
  count \<open>R\<close> whose difference \<open>N - R\<close> is within \<^verbatim>\<open>int\<close>, as it is for every \<open>R\<close> from 0,
  the loss in the statistics is \<open>(N - R) / N * 100\<close> computed in binary64 on the counts
  themselves. It is a finite number, and it lies within a relative \<open>2\<^sup>-\<^sup>5\<^sup>0\<close> of that
  quotient taken in the reals: the rounding of the four operations and nothing more.
\<close>

theorem GenerateStats_loss_rounded:
  assumes "0 < sint (Pinger.PacketsSent p)"
    and "sint (Pinger.PacketsSent p) - sint (Pinger.PacketsRecieve p) < 2 ^ 63"
  shows "PacketsLoss (fst (GenerateStats p)) =
           loss_formula (sint (Pinger.PacketsSent p)) (sint (Pinger.PacketsRecieve p)) \<and>
         (\<exists>d. PacketsLoss (fst (GenerateStats p)) = Finite d \<and>
              close_to (1 / 2 ^ 50)
                (exact_loss (sint (Pinger.PacketsSent p)) (sint (Pinger.PacketsRecieve p))) d)"
proof -
  have n: "sint (Pinger.PacketsSent p) < 2 ^ 63"
    and r: "sint (Pinger.PacketsRecieve p) < 2 ^ 63"
    using sint_lt [of "Pinger.PacketsSent p"] sint_lt [of "Pinger.PacketsRecieve p"] by simp_all
  have "\<bar>sint (Pinger.PacketsSent p) - sint (Pinger.PacketsRecieve p)\<bar> < 2 ^ 63"
    using assms r by linarith
  from loss_formula_close [OF assms(1) n this] loss_no_wrap [OF assms]
  show ?thesis by simp
qed

theorem GenerateStats_loss_rounded_witness:
  "0 < sint (Pinger.PacketsSent lossy_pinger) \<and>
   sint (Pinger.PacketsSent lossy_pinger) - sint (Pinger.PacketsRecieve lossy_pinger) < 2 ^ 63 \<and>
   PacketsLoss (fst (GenerateStats lossy_pinger)) = loss_formula 5 3 \<and>
   PacketsLoss (fst (GenerateStats lossy_pinger)) = Finite 40 \<and>
   exact_loss 5 3 = 40"
proof -
  have s: "sint (Pinger.PacketsSent lossy_pinger) = 5"
    and r: "sint (Pinger.PacketsRecieve lossy_pinger) = 3"
    by (simp_all add: lossy_pinger_def)
  have "0 < sint (Pinger.PacketsSent lossy_pinger)"
    and "sint (Pinger.PacketsSent lossy_pinger) - sint (Pinger.PacketsRecieve lossy_pinger)
           < 2 ^ 63"
    by (simp_all add: s r)
  from GenerateStats_loss_rounded [OF this] this show ?thesis
    by (simp add: s r loss_formula_5_3 exact_loss_def)
qed

text \<open>
  Claim C5 as the specification states it fails, in two ways. With three sent and two
  received the loss is the binary64 number \<open>2345624805922133 / 2\<^sup>4\<^sup>6\<close>, which is not the
  quotient \<open>100 / 3\<close>. With one sent and the least \<^verbatim>\<open>int\<close> as the received count the
  subtraction wraps, and the loss is negative where the quotient is positive.
\<close>

theorem GenerateStats_loss_counterexample:
  "sint (Pinger.PacketsSent third_pinger) = 3 \<and>
   sint (Pinger.PacketsRecieve third_pinger) = 2 \<and>
   PacketsLoss (fst (GenerateStats third_pinger)) = Finite (2345624805922133 / 70368744177664) \<and>
   exact_loss 3 2 = 100 / 3 \<and>
   (2345624805922133 / 70368744177664 :: real) \<noteq> 100 / 3 \<and>
   sint (Pinger.PacketsSent wrap_pinger) = 1 \<and>
   sint (Pinger.PacketsRecieve wrap_pinger) = - 9223372036854775808 \<and>
   PacketsLoss (fst (GenerateStats wrap_pinger)) = Finite (- 922337203685477580800) \<and>
   exact_loss 1 (- 9223372036854775808) = 922337203685477580900"
  by (simp add: third_loss wrap_loss exact_loss_def)
    (simp add: third_pinger_def wrap_pinger_def)

subsection \<open>Minimum, maximum, average and deviation\<close>

lemma GenerateStats_samples:
  assumes "rtts p = r # rs" and "scan_rtts (rtts p) (r, r, 0) = (mn, mx, tot)"
  shows "MinRtt (fst (GenerateStats p)) = mn" and "MaxRtt (fst (GenerateStats p)) = mx"
    and "AvgRtt (fst (GenerateStats p)) = div64 tot (word_of_nat (length (rtts p)))"
    and "StdDevRtt (fst (GenerateStats p)) =
      f64_to_int64 (f64_sqrt (f64_of_int64
        (div64 (sum_squares (rtts p) (div64 tot (word_of_nat (length (rtts p)))) 0)
               (word_of_nat (length (rtts p))))))"
  using assms by (simp_all add: GenerateStats_def Let_def)

lemma GenerateStats_min_max:
  assumes "rtts p \<noteq> []"
  shows "sint (MinRtt (fst (GenerateStats p))) = Min (sint ` set (rtts p))"
    and "sint (MaxRtt (fst (GenerateStats p))) = Max (sint ` set (rtts p))"
proof -
  from assms obtain r rs where rs: "rtts p = r # rs" by (cases "rtts p") auto
  obtain mn mx tot where sc: "scan_rtts (rtts p) (r, r, 0) = (mn, mx, tot)"
    by (cases "scan_rtts (rtts p) (r, r, 0)") auto
  have e: "sint ` set (r # rtts p) = sint ` set (rtts p)" using rs by auto
  have "sint mn = Min (sint ` set (rtts p))"
    using scan_rtts_spec(1) [OF sc] unfolding e .
  then show "sint (MinRtt (fst (GenerateStats p))) = Min (sint ` set (rtts p))"
    using GenerateStats_samples(1) [OF rs sc] by simp
  have "sint mx = Max (sint ` set (rtts p))"
    using scan_rtts_spec(2) [OF sc] unfolding e .
  then show "sint (MaxRtt (fst (GenerateStats p))) = Max (sint ` set (rtts p))"
    using GenerateStats_samples(2) [OF rs sc] by simp
qed

lemma tdiv_toward_zero:
  assumes "0 < b"
  shows "tdiv a b = toward_zero (of_int a / of_int b)"
proof (cases "0 \<le> a")
  case True
  then have "0 \<le> real_of_int a / of_int b" using assms by simp
  then show ?thesis
    using True assms by (simp add: toward_zero_def tdiv_pos_divisor floor_divide_of_int_eq)
next
  case False
  then have "real_of_int a / of_int b < 0" using assms by (simp add: divide_neg_pos)
  moreover have "\<lceil>real_of_int a / of_int b\<rceil> = - ((- a) div b)"
  proof -
    have "\<lceil>real_of_int a / of_int b\<rceil> = - \<lfloor>real_of_int (- a) / of_int b\<rfloor>"
      by (simp add: ceiling_def)
    also have "\<dots> = - ((- a) div b)" by (simp only: floor_divide_of_int_eq)
    finally show ?thesis .
  qed
  ultimately show ?thesis
    using False assms by (simp add: toward_zero_def tdiv_pos_divisor)
qed

lemma arithmetic_mean_sum:
  "arithmetic_mean rs = of_int (sample_sum rs) / of_int (int (length rs))"
proof -
  have "(\<Sum>r\<leftarrow>rs. real_of_int (sint r)) = of_int (\<Sum>r\<leftarrow>rs. sint r)"
    by (induction rs) simp_all
  then show ?thesis by (simp add: arithmetic_mean_def sample_sum_def)
qed

lemma mean_sq_dev_sum:
  "mean_sq_dev rs (of_int a) = of_int (sq_dev_sum rs a) / of_int (int (length rs))"
proof -
  have "(\<Sum>r\<leftarrow>rs. (real_of_int (sint r) - of_int a)\<^sup>2)
          = of_int (\<Sum>r\<leftarrow>rs. (sint r - a) * (sint r - a))"
    by (induction rs) (simp_all add: power2_eq_square)
  then show ?thesis by (simp add: mean_sq_dev_def sq_dev_sum_def)
qed

lemma sq_dev_sum_nonneg: "0 \<le> sq_dev_sum rs a"
  unfolding sq_dev_sum_def by (rule sum_list_nonneg) auto

lemma GenerateStats_avg:
  assumes "rtts p \<noteq> []" and "length (rtts p) < 2 ^ 63"
    and "- (2 ^ 63) \<le> sample_sum (rtts p)" and "sample_sum (rtts p) < 2 ^ 63"
  shows "sint (AvgRtt (fst (GenerateStats p))) = toward_zero (arithmetic_mean (rtts p))"
proof -
  from assms obtain r rs where rs: "rtts p = r # rs" by (cases "rtts p") auto
  obtain mn mx tot where sc: "scan_rtts (rtts p) (r, r, 0) = (mn, mx, tot)"
    by (cases "scan_rtts (rtts p) (r, r, 0)") auto
  have "tot = word_of_int (sample_sum (rtts p))"
    using scan_rtts_spec(3) [OF sc] sum_list_word_of_int [of "rtts p"]
    by (simp add: sample_sum_def)
  then have tot: "sint tot = sample_sum (rtts p)"
    using assms(3,4) by (simp only: sint_word_of_int_64)
  have n: "sint (word_of_nat (length (rtts p)) :: 64 word) = int (length (rtts p))"
    using assms(2) by (rule sint_word_of_nat_64)
  have npos: "0 < int (length (rtts p))" using assms(1) by simp
  then have "sint (div64 tot (word_of_nat (length (rtts p)))) =
      tdiv (sample_sum (rtts p)) (int (length (rtts p)))"
    using sint_div64 [of "word_of_nat (length (rtts p))" tot] by (simp only: n tot)
  then show ?thesis
    using GenerateStats_samples(3) [OF rs sc] tdiv_toward_zero [OF npos]
    by (simp add: arithmetic_mean_sum)
qed

lemma GenerateStats_stddev:
  assumes "rtts p \<noteq> []" and "length (rtts p) < 2 ^ 63"
    and "sq_dev_sum (rtts p) (sint (AvgRtt (fst (GenerateStats p)))) < 2 ^ 63"
  shows "StdDevRtt (fst (GenerateStats p)) =
     f64_to_int64 (f64_sqrt (f64_of_int
       \<lfloor>mean_sq_dev (rtts p) (of_int (sint (AvgRtt (fst (GenerateStats p)))))\<rfloor>))"
proof -
  from assms obtain r rs where rs: "rtts p = r # rs" by (cases "rtts p") auto
  obtain mn mx tot where sc: "scan_rtts (rtts p) (r, r, 0) = (mn, mx, tot)"
    by (cases "scan_rtts (rtts p) (r, r, 0)") auto
  define n where "n = (word_of_nat (length (rtts p)) :: 64 word)"
  define avg where "avg = div64 tot n"
  define S where "S = sq_dev_sum (rtts p) (sint avg)"
  define N where "N = int (length (rtts p))"
  have av: "AvgRtt (fst (GenerateStats p)) = avg"
    using GenerateStats_samples(3) [OF rs sc] by (simp add: avg_def n_def)
  have n: "sint n = N"
    unfolding n_def N_def using assms(2) by (rule sint_word_of_nat_64)
  have Npos: "0 < N" using assms(1) by (simp add: N_def)
  then have npos: "0 < sint n" by (simp only: n)
  have "sum_squares (rtts p) avg 0 = word_of_int S"
    by (simp add: sum_squares_spec S_def sq_dev_sum_def)
  moreover have S0: "0 \<le> S" unfolding S_def by (rule sq_dev_sum_nonneg)
  moreover have "S < 2 ^ 63" using assms(3) by (simp add: S_def av)
  ultimately have "sint (sum_squares (rtts p) avg 0) = S"
    by (simp only: sint_word_of_int_64)
  then have "sint (div64 (sum_squares (rtts p) avg 0) n) = tdiv S N"
    using sint_div64 [OF npos] by (simp only: n)
  also have "\<dots> = toward_zero (of_int S / of_int N)"
    using Npos by (rule tdiv_toward_zero)
  also have "\<dots> = \<lfloor>real_of_int S / of_int N\<rfloor>"
    using S0 Npos by (simp add: toward_zero_def)
  also have "\<dots> = \<lfloor>mean_sq_dev (rtts p) (of_int (sint avg))\<rfloor>"
    by (simp only: mean_sq_dev_sum S_def N_def)
  finally have "sint (div64 (sum_squares (rtts p) avg 0) n) =
      \<lfloor>mean_sq_dev (rtts p) (of_int (sint avg))\<rfloor>" .
  then show ?thesis
    using GenerateStats_samples(4) [OF rs sc]
    by (simp add: f64_of_int64_def av avg_def [symmetric] n_def [symmetric])
qed

lemma floor_sqrt_floor:
  assumes "0 \<le> y"
  shows "\<lfloor>sqrt (of_int \<lfloor>y\<rfloor>)\<rfloor> = \<lfloor>sqrt y\<rfloor>"
proof -
  define V where "V = \<lfloor>y\<rfloor>"
  define s where "s = \<lfloor>sqrt (real_of_int V)\<rfloor>"
  have V0: "0 \<le> V" using assms by (simp add: V_def)
  have s0: "0 \<le> s" and lo: "s * s \<le> V" and hi: "V < (s + 1) * (s + 1)"
    using floor_sqrt_bounds [OF V0] by (simp_all add: s_def)
  have "real_of_int (s * s) \<le> of_int V" using lo by (simp only: of_int_le_iff)
  also have "\<dots> \<le> y" by (simp add: V_def)
  finally have "(of_int s)\<^sup>2 \<le> y" by (simp add: power2_eq_square)
  then have a: "of_int s \<le> sqrt y" by (rule real_le_rsqrt)
  have "V + 1 \<le> (s + 1) * (s + 1)" using hi by simp
  then have "real_of_int (V + 1) \<le> of_int ((s + 1) * (s + 1))" by (simp only: of_int_le_iff)
  moreover have "y < real_of_int (V + 1)" unfolding V_def by simp
  ultimately have "y < (of_int s + 1)\<^sup>2" by (simp add: power2_eq_square)
  then have b: "sqrt y < of_int s + 1"
    using s0 by (intro real_less_lsqrt) simp_all
  have "\<lfloor>sqrt y\<rfloor> = s" using a b by (rule floor_unique)
  then show ?thesis by (simp add: s_def V_def)
qed

lemma GenerateStats_stddev_floor:
  assumes "rtts p \<noteq> []" and "length (rtts p) < 2 ^ 63"
    and "sq_dev_sum (rtts p) (sint (AvgRtt (fst (GenerateStats p)))) < 2 ^ 63"
    and "mean_sq_dev (rtts p) (of_int (sint (AvgRtt (fst (GenerateStats p))))) < 2 ^ 52"
  shows "sint (StdDevRtt (fst (GenerateStats p))) =
     \<lfloor>sqrt (mean_sq_dev (rtts p) (of_int (sint (AvgRtt (fst (GenerateStats p))))))\<rfloor>"
proof -
  define y where "y = mean_sq_dev (rtts p) (of_int (sint (AvgRtt (fst (GenerateStats p)))))"
  have y0: "0 \<le> y"
    unfolding y_def mean_sq_dev_def by (intro divide_nonneg_nonneg sum_list_nonneg) auto
  then have V0: "0 \<le> \<lfloor>y\<rfloor>" by simp
  have V52: "\<lfloor>y\<rfloor> < 2 ^ 52"
    using assms(4) unfolding y_def [symmetric] by (simp add: floor_less_iff)
  have st: "StdDevRtt (fst (GenerateStats p)) = word_of_int \<lfloor>sqrt y\<rfloor>"
    using sqrt_trunc_small [OF V0 V52] GenerateStats_stddev [OF assms(1-3)]
      floor_sqrt_floor [OF y0]
    by (simp add: y_def)
  have f0: "0 \<le> \<lfloor>sqrt y\<rfloor>" using y0 by simp
  have "(- (2 ^ 63) :: int) \<le> 0" by simp
  then have r1: "- (2 ^ 63) \<le> \<lfloor>sqrt y\<rfloor>" using f0 by (rule order_trans)
  have "sqrt y < sqrt ((2 ^ 26)\<^sup>2)"
    using assms(4) unfolding y_def [symmetric] by (intro real_sqrt_less_mono) simp
  then have "sqrt y < 2 ^ 26" by simp
  then have "\<lfloor>sqrt y\<rfloor> < 2 ^ 26" by (simp add: floor_less_iff)
  then have r2: "\<lfloor>sqrt y\<rfloor> < 2 ^ 63" by simp
  have "sint (StdDevRtt (fst (GenerateStats p))) = \<lfloor>sqrt y\<rfloor>"
    unfolding st using r1 r2 by (rule sint_word_of_int_64)
  then show ?thesis by (simp only: y_def)
qed

text \<open>
  What the code computes while nothing wraps. \<^verbatim>\<open>MinRtt\<close> and \<^verbatim>\<open>MaxRtt\<close> are the least
  and the greatest sample. When the sum of the samples fits \<^verbatim>\<open>int64\<close>, \<^verbatim>\<open>AvgRtt\<close> is
  the arithmetic mean rounded towards zero to whole nanoseconds. When also the sum of the
  squared distances from \<^verbatim>\<open>AvgRtt\<close> fits, \<^verbatim>\<open>StdDevRtt\<close> is the binary64 square root,
  cut to whole nanoseconds, of the whole part of the mean squared distance from
  \<^verbatim>\<open>AvgRtt\<close>; while that mean is below \<open>2\<^sup>5\<^sup>2\<close>, this is its square root rounded down.
\<close>

lemma GenerateStats_without_wrap:
  assumes "rtts p \<noteq> []" and "length (rtts p) < 2 ^ 63"
  shows "sint (MinRtt (fst (GenerateStats p))) = Min (sint ` set (rtts p)) \<and>
         sint (MaxRtt (fst (GenerateStats p))) = Max (sint ` set (rtts p)) \<and>
         (- (2 ^ 63) \<le> sample_sum (rtts p) \<and> sample_sum (rtts p) < 2 ^ 63 \<longrightarrow>
            sint (AvgRtt (fst (GenerateStats p))) = toward_zero (arithmetic_mean (rtts p))) \<and>
         (sq_dev_sum (rtts p) (sint (AvgRtt (fst (GenerateStats p)))) < 2 ^ 63 \<longrightarrow>
            StdDevRtt (fst (GenerateStats p)) =
              f64_to_int64 (f64_sqrt (f64_of_int
                \<lfloor>mean_sq_dev (rtts p) (of_int (sint (AvgRtt (fst (GenerateStats p)))))\<rfloor>)) \<and>
            (mean_sq_dev (rtts p) (of_int (sint (AvgRtt (fst (GenerateStats p))))) < 2 ^ 52 \<longrightarrow>
               sint (StdDevRtt (fst (GenerateStats p))) =
                 \<lfloor>sqrt (mean_sq_dev (rtts p)
                          (of_int (sint (AvgRtt (fst (GenerateStats p))))))\<rfloor>))"
  using GenerateStats_min_max [OF assms(1)] GenerateStats_avg [OF assms]
    GenerateStats_stddev [OF assms] GenerateStats_stddev_floor [OF assms]
  by blast

lemma floor_sqrt_eq:
  assumes "0 \<le> s" and "(of_int s)\<^sup>2 \<le> y" and "y < (of_int s + 1)\<^sup>2"
  shows "\<lfloor>sqrt y\<rfloor> = s"
proof -
  have "of_int s \<le> sqrt y" using assms(2) by (rule real_le_rsqrt)
  moreover have "sqrt y < of_int s + 1"
    using assms(1,3) by (intro real_less_lsqrt) simp_all
  ultimately show ?thesis by (rule floor_unique)
qed

lemma GenerateStats_three_samples:
  "rtts three_samples \<noteq> [] \<and> length (rtts three_samples) < 2 ^ 63 \<and>
   - (2 ^ 63) \<le> sample_sum (rtts three_samples) \<and> sample_sum (rtts three_samples) < 2 ^ 63 \<and>
   sq_dev_sum (rtts three_samples) 30 < 2 ^ 63 \<and>
   mean_sq_dev (rtts three_samples) 30 < 2 ^ 52 \<and>
   sint (MinRtt (fst (GenerateStats three_samples))) = 10 \<and>
   sint (MaxRtt (fst (GenerateStats three_samples))) = 60 \<and>
   sint (AvgRtt (fst (GenerateStats three_samples))) = 30 \<and>
   sint (StdDevRtt (fst (GenerateStats three_samples))) = 21"
proof -
  have rs: "rtts three_samples = [10, 20, 60]" by (simp add: three_samples_def)
  have ne: "rtts three_samples \<noteq> []" and len: "length (rtts three_samples) < 2 ^ 63"
    by (simp_all add: rs)
  have sm: "sample_sum (rtts three_samples) = 90" by (simp add: rs sample_sum_def)
  have am: "arithmetic_mean (rtts three_samples) = 30" by (simp add: rs arithmetic_mean_def)
  have sq: "sq_dev_sum (rtts three_samples) 30 = 1400" by (simp add: rs sq_dev_sum_def)
  have ms: "mean_sq_dev (rtts three_samples) 30 = 1400 / 3"
    by (simp add: rs mean_sq_dev_def)
  have fs: "\<lfloor>sqrt (1400 / 3 :: real)\<rfloor> = 21"
    by (rule floor_sqrt_eq) simp_all
  note T = GenerateStats_without_wrap [OF ne len]
  have mn: "sint (MinRtt (fst (GenerateStats three_samples))) = 10"
    and mx: "sint (MaxRtt (fst (GenerateStats three_samples))) = 60"
    using T by (simp_all add: rs)
  have avg: "sint (AvgRtt (fst (GenerateStats three_samples))) = 30"
    using T by (simp add: sm am toward_zero_def)
  have h1: "sq_dev_sum (rtts three_samples)
              (sint (AvgRtt (fst (GenerateStats three_samples)))) < 2 ^ 63"
    by (simp add: avg sq)
  have h2: "mean_sq_dev (rtts three_samples)
              (of_int (sint (AvgRtt (fst (GenerateStats three_samples))))) < 2 ^ 52"
    by (simp add: avg ms)
  from T h1 h2 have "sint (StdDevRtt (fst (GenerateStats three_samples))) =
      \<lfloor>sqrt (mean_sq_dev (rtts three_samples)
               (of_int (sint (AvgRtt (fst (GenerateStats three_samples))))))\<rfloor>"
    by blast
  then have sd: "sint (StdDevRtt (fst (GenerateStats three_samples))) = 21"
    by (simp add: avg ms fs)
  show ?thesis using ne len mn mx avg sd by (simp add: sm sq ms)
qed

lemma two_samples_stats:
  "fst (GenerateStats two_samples) =
     \<lparr> Stats.PacketsRecieve = 2, Stats.PacketsSent = 2, PacketsLoss = Finite 0,
       IPAddr = Some loopback, Addr = ''127.0.0.1'', Rtts = [1, 2],
       MinRtt = 1, MaxRtt = 2, AvgRtt = 1, StdDevRtt = 0 \<rparr>"
  using round64_of_int_exact [of 2]
  by (simp add: GenerateStats_def two_samples_def fresh_pinger_def Let_def div64_def tdiv_def
      f64_of_int64_def f64_of_int_def round64_def [of 0] word_sless_alt)

text \<open>
  The whole nanoseconds at work: for the samples 1 ns and 2 ns the arithmetic mean is 3/2
  and the population standard deviation 1/2, while \<^verbatim>\<open>AvgRtt\<close> is 1 and \<^verbatim>\<open>StdDevRtt\<close>
  is 0.
\<close>

lemma GenerateStats_two_samples:
  "rtts two_samples = [1, 2] \<and>
   arithmetic_mean (rtts two_samples) = 3 / 2 \<and>
   sint (AvgRtt (fst (GenerateStats two_samples))) = 1 \<and>
   population_std_dev (rtts two_samples) = 1 / 2 \<and>
   sint (StdDevRtt (fst (GenerateStats two_samples))) = 0"
proof -
  have rs: "rtts two_samples = [1, 2]" by (simp add: two_samples_def)
  have am: "arithmetic_mean [1, 2] = 3 / 2" by (simp add: arithmetic_mean_def)
  have "mean_sq_dev [1, 2] (3 / 2) = 1 / 4"
    by (simp add: mean_sq_dev_def power2_eq_square)
  then have "population_std_dev [1, 2] = sqrt (1 / 4)"
    by (simp add: population_std_dev_def am)
  also have "\<dots> = 1 / 2" by (simp add: real_sqrt_divide)
  finally have sd: "population_std_dev [1, 2] = 1 / 2" .
  show ?thesis by (simp add: two_samples_stats rs am sd)
qed

lemma round64_slow: "round64 (- 2973372036854775808) = Finite (- 2973372036854775808)"
  using round64_normal [of 61 "- 2973372036854775808"] by (simp add: pow2_def rne_def Let_def)

lemma slow_scan:
  "scan_rtts [1000000, 5001000000] (1000000, 1000000, 0) = (1000000, 5001000000, 5002000000)"
  by (simp add: word_sless_alt)

lemma slow_avg: "div64 5002000000 2 = 2501000000"
  by (simp add: div64_def tdiv_def)

lemma slow_squares: "sum_squares [1000000, 5001000000] 2501000000 0 = 12500000000000000000"
  by simp

lemma slow_quotient: "div64 12500000000000000000 2 = word_of_int (- 2973372036854775808)"
  by (simp add: div64_def tdiv_def)

lemma slow_quotient_sint:
  "sint (word_of_int (- 2973372036854775808) :: 64 word) = - 2973372036854775808"
  by (rule sint_word_of_int_64) simp_all

lemma slow_stats:
  "fst (GenerateStats slow_pinger) =
     \<lparr> Stats.PacketsRecieve = 2, Stats.PacketsSent = 2, PacketsLoss = Finite 0,
       IPAddr = Some loopback, Addr = ''127.0.0.1'', Rtts = [1000000, 5001000000],
       MinRtt = 1000000, MaxRtt = 5001000000, AvgRtt = 2501000000, StdDevRtt = indefinite \<rparr>"
proof -
  have rs: "rtts slow_pinger = [1000000, 5001000000]" by (simp add: slow_pinger_def)
  have sd: "f64_to_int64 (f64_sqrt (f64_of_int64 (div64 12500000000000000000 2))) = indefinite"
    by (simp add: slow_quotient f64_of_int64_def slow_quotient_sint f64_of_int_def round64_slow)
  have loss: "PacketsLoss (fst (GenerateStats slow_pinger)) = Finite 0"
    using round64_of_int_exact [of 2]
    by (simp add: GenerateStats_loss slow_pinger_def f64_of_int64_def f64_of_int_def
        round64_def [of 0])
  have "scan_rtts (rtts slow_pinger) (1000000, 1000000, 0) = (1000000, 5001000000, 5002000000)"
    by (simp only: rs slow_scan)
  from GenerateStats_samples [OF rs this] loss show ?thesis
    by (simp add: rs slow_avg slow_squares sd GenerateStats_def Let_def slow_pinger_def
        fresh_pinger_def slow_scan)
qed

lemma slow_mean: "arithmetic_mean [1000000, 5001000000] = 2501000000"
  by (simp add: arithmetic_mean_def)

lemma slow_deviation: "population_std_dev [1000000, 5001000000] = 2500000000"
proof -
  have "mean_sq_dev [1000000, 5001000000] 2501000000 = 2500000000\<^sup>2"
    by (simp add: mean_sq_dev_def power2_eq_square)
  then show ?thesis
    by (simp only: population_std_dev_def slow_mean) simp
qed

text \<open>
  Claim C6, where the code departs from it. For the samples 1 ms and 5.001 s the
  arithmetic mean is 2.501 s and the population standard deviation 2.5 s, both whole
  nanoseconds, and \<^verbatim>\<open>AvgRtt\<close> is the mean. The two squared distances add up to
  \<open>1.25 \<times> 10\<^sup>1\<^sup>9\<close>, beyond \<^verbatim>\<open>int64\<close>: \<^verbatim>\<open>sumSquares\<close> wraps to a negative number, its
  square root is NaN, and \<^verbatim>\<open>StdDevRtt\<close> is what the conversion of NaN gives, here the
  least \<^verbatim>\<open>int64\<close>.
\<close>

theorem GenerateStats_slow_samples:
  "rtts slow_pinger = [1000000, 5001000000] \<and>
   arithmetic_mean (rtts slow_pinger) = 2501000000 \<and>
   sint (AvgRtt (fst (GenerateStats slow_pinger))) = 2501000000 \<and>
   population_std_dev (rtts slow_pinger) = 2500000000 \<and>
   sq_dev_sum (rtts slow_pinger) 2501000000 = 12500000000000000000 \<and>
   sint (sum_squares (rtts slow_pinger) 2501000000 0) = - 5946744073709551616 \<and>
   StdDevRtt (fst (GenerateStats slow_pinger)) = indefinite \<and>
   sint (StdDevRtt (fst (GenerateStats slow_pinger))) = - 9223372036854775808"
proof -
  have rs: "rtts slow_pinger = [1000000, 5001000000]" by (simp add: slow_pinger_def)
  have sq: "sq_dev_sum [1000000, 5001000000] 2501000000 = 12500000000000000000"
    by (simp add: sq_dev_sum_def)
  have ss: "sint (12500000000000000000 :: 64 word) = - 5946744073709551616" by simp
  show ?thesis
    by (simp add: slow_stats rs slow_mean slow_deviation sq slow_squares ss indefinite_def)
qed

subsection \<open>Running\<close>

lemma listen_Inl:
  "ListenPacket netProto (Source p) = Inl err \<Longrightarrow> done' p = OpenChan \<Longrightarrow>
   listen ListenPacket p netProto w =
     Inr (None, p\<lparr>done' := ClosedChan\<rparr>,
          w\<lparr>logged := logged w @ [[''Error listening for ICMP Packets: %s\<newline>'', err]]\<rparr>)"
  by (simp add: listen_def close_chan_def)

lemma listen_Inr:
  "ListenPacket netProto (Source p) = Inr c \<Longrightarrow>
   listen ListenPacket p netProto w = Inr (Some c, p, w)"
  by (simp add: listen_def)

lemma finish_Some:
  "OnFinish p = Some h \<Longrightarrow>
   finish p w = (p, w\<lparr>user := h (fst (GenerateStats p)) (user w)\<rparr>)"
  using GenerateStats_snd [of p] by (cases "GenerateStats p") (simp add: finish_def)

lemma Run_listen_fails:
  assumes "ListenPacket (used_proto p) (Source p) = Inl err" and "done' p = OpenChan"
  shows "Run ListenPacket p w =
     Inr (p\<lparr>done' := ClosedChan\<rparr>,
          w\<lparr>logged := logged w @ [[''Error listening for ICMP Packets: %s\<newline>'', err]]\<rparr>)"
  using assms by (simp add: Run_def used_proto_def listen_Inl split: if_splits)

lemma Run_listen_ok:
  assumes "ListenPacket (used_proto p) (Source p) = Inr c"
  shows "Run ListenPacket p w =
     (case finish p (w\<lparr>transport := transport w @
               [if ipv4 p then SetControlMessageTTL c True
                else SetControlMessageHopLimit c True]\<rparr>) of
        (p3, w3) \<Rightarrow> Inr (p3, w3\<lparr>transport := transport w3 @ [Close c]\<rparr>))"
  using assms by (simp add: Run_def used_proto_def listen_Inr split: if_splits)

lemma Run_scenario_ok:
  "Run listen_ok scenario_pinger no_calls =
     Inr (scenario_pinger,
          \<lparr>user = \<lparr>packets = [], finished = [idle_stats]\<rparr>,
           logged = [],
           transport = [SetControlMessageTTL 3 True, Close 3]\<rparr>)"
proof -
  have l: "listen_ok (used_proto scenario_pinger) (Source scenario_pinger) = Inr 3"
    by (simp add: listen_ok_def)
  have h: "OnFinish scenario_pinger = Some record_stats"
    by (simp add: scenario_pinger_def)
  have v: "ipv4 scenario_pinger"
    by (simp add: scenario_pinger_def fresh_pinger_def)
  show ?thesis
    unfolding Run_listen_ok [of listen_ok scenario_pinger 3, OF l] finish_Some [OF h]
      GenerateStats_scenario
    by (simp add: v record_stats_def no_calls_def)
qed

lemma Run_scenario_fails:
  "Run listen_fails scenario_pinger no_calls =
     Inr (scenario_pinger\<lparr>done' := ClosedChan\<rparr>,
          \<lparr>user = \<lparr>packets = [], finished = []\<rparr>,
           logged = [[''Error listening for ICMP Packets: %s\<newline>'', ''operation not permitted'']],
           transport = []\<rparr>)"
  by (simp add: Run_listen_fails [where err = "''operation not permitted''"] listen_fails_def
      scenario_pinger_def fresh_pinger_def no_calls_def)

text \<open>
  Claim C10. With no completion callback, \<^verbatim>\<open>finish\<close> returns the pinger and the world
  as they were: no callback is applied, nothing is computed into either, and the model has
  no panic on this path.
\<close>

theorem finish_without_handler:
  "OnFinish p = None \<Longrightarrow> finish p w = (p, w)"
  by (simp add: finish_def)

theorem finish_without_handler_witness:
  "OnFinish fresh_pinger = None \<and> finish fresh_pinger no_calls = (fresh_pinger, no_calls)"
  using finish_without_handler [of fresh_pinger no_calls] by (simp add: fresh_pinger_def)

lemma finish_None: "OnFinish p = None \<Longrightarrow> finish p w = (p, w)"
  by (simp add: finish_def)

lemma Run_listen_panics:
  assumes "ListenPacket (used_proto p) (Source p) = Inl err" and "done' p \<noteq> OpenChan"
  shows "Run ListenPacket p w =
     Inl (if done' p = NilChan then CloseOfNilChannel else CloseOfClosedChannel)"
  using assms
  by (cases "done' p"; cases "ipv4 p")
    (simp_all add: Run_def used_proto_def listen_def close_chan_def)

lemma Run_v6_fails:
  "Run listen_fails v6_pinger no_calls =
     Inr (v6_pinger\<lparr>done' := ClosedChan\<rparr>,
          \<lparr>user = \<lparr>packets = [], finished = []\<rparr>,
           logged = [[''Error listening for ICMP Packets: %s\<newline>'', ''operation not permitted'']],
           transport = []\<rparr>)"
  by (simp add: Run_listen_fails [where err = "''operation not permitted''"] listen_fails_def
      v6_pinger_def fresh_pinger_def no_calls_def)

text \<open>
  Claim C7, as the code has it. What a run does with the completion callback, path by
  path. When the connection is acquired and a callback \<open>h\<close> is set, \<^verbatim>\<open>Run\<close> returns and
  the caller's state is \<open>h\<close> applied once to the statistics of the pinger. When the
  connection is acquired and no callback is set, the caller's state is untouched. When the
  connection cannot be acquired, the callback is not applied: \<^verbatim>\<open>Run\<close> returns with the
  \<^verbatim>\<open>done\<close> channel closed and the caller's state untouched, or, when that channel was
  not open, panics in \<^verbatim>\<open>close\<close>. On no path is the callback applied twice.
\<close>

theorem Run_completion:
  "(ListenPacket (used_proto p) (Source p) = Inr c \<and> OnFinish p = Some h \<longrightarrow>
      (\<exists>w'. Run ListenPacket p w = Inr (p, w') \<and>
            user w' = h (fst (GenerateStats p)) (user w))) \<and>
   (ListenPacket (used_proto p) (Source p) = Inr c \<and> OnFinish p = None \<longrightarrow>
      (\<exists>w'. Run ListenPacket p w = Inr (p, w') \<and> user w' = user w)) \<and>
   (ListenPacket (used_proto p) (Source p) = Inl err \<and> done' p = OpenChan \<longrightarrow>
      (\<exists>w'. Run ListenPacket p w = Inr (p\<lparr>done' := ClosedChan\<rparr>, w') \<and> user w' = user w)) \<and>
   (ListenPacket (used_proto p) (Source p) = Inl err \<and> done' p \<noteq> OpenChan \<longrightarrow>
      (\<exists>e. Run ListenPacket p w = Inl e))"
proof (intro conjI impI)
  assume "ListenPacket (used_proto p) (Source p) = Inr c \<and> OnFinish p = Some h"
  then show "\<exists>w'. Run ListenPacket p w = Inr (p, w') \<and>
            user w' = h (fst (GenerateStats p)) (user w)"
    by (simp add: Run_listen_ok finish_Some)
next
  assume "ListenPacket (used_proto p) (Source p) = Inr c \<and> OnFinish p = None"
  then show "\<exists>w'. Run ListenPacket p w = Inr (p, w') \<and> user w' = user w"
    by (simp add: Run_listen_ok finish_None)
next
  assume "ListenPacket (used_proto p) (Source p) = Inl err \<and> done' p = OpenChan"
  then show "\<exists>w'. Run ListenPacket p w = Inr (p\<lparr>done' := ClosedChan\<rparr>, w') \<and> user w' = user w"
    by (simp add: Run_listen_fails)
next
  assume "ListenPacket (used_proto p) (Source p) = Inl err \<and> done' p \<noteq> OpenChan"
  then show "\<exists>e. Run ListenPacket p w = Inl e"
    by (simp add: Run_listen_panics)
qed

theorem Run_completion_witness:
  "listen_ok (used_proto scenario_pinger) (Source scenario_pinger) = Inr 3 \<and>
   OnFinish scenario_pinger = Some record_stats \<and>
   (\<exists>w'. Run listen_ok scenario_pinger no_calls = Inr (scenario_pinger, w') \<and>
         user w' = record_stats (fst (GenerateStats scenario_pinger)) (user no_calls) \<and>
         finished (user w') = [idle_stats]) \<and>
   listen_ok (used_proto fresh_pinger) (Source fresh_pinger) = Inr 3 \<and>
   OnFinish fresh_pinger = None \<and>
   (\<exists>w'. Run listen_ok fresh_pinger no_calls = Inr (fresh_pinger, w') \<and>
         user w' = user no_calls) \<and>
   listen_fails (used_proto scenario_pinger) (Source scenario_pinger)
     = Inl ''operation not permitted'' \<and>
   done' scenario_pinger = OpenChan \<and>
   (\<exists>w'. Run listen_fails scenario_pinger no_calls
           = Inr (scenario_pinger\<lparr>done' := ClosedChan\<rparr>, w') \<and>
         user w' = user no_calls) \<and>
   listen_fails (used_proto closed_pinger) (Source closed_pinger)
     = Inl ''operation not permitted'' \<and>
   done' closed_pinger \<noteq> OpenChan \<and>
   (\<exists>e. Run listen_fails closed_pinger no_calls = Inl e)"
proof -
  have l: "listen_ok (used_proto scenario_pinger) (Source scenario_pinger) = Inr 3"
    and l0: "listen_ok (used_proto fresh_pinger) (Source fresh_pinger) = Inr 3"
    by (simp_all add: listen_ok_def)
  have f: "listen_fails (used_proto scenario_pinger) (Source scenario_pinger)
             = Inl ''operation not permitted''"
    and fc: "listen_fails (used_proto closed_pinger) (Source closed_pinger)
             = Inl ''operation not permitted''"
    by (simp_all add: listen_fails_def)
  have h: "OnFinish scenario_pinger = Some record_stats"
    and d: "done' scenario_pinger = OpenChan"
    by (simp_all add: scenario_pinger_def fresh_pinger_def)
  have h0: "OnFinish fresh_pinger = None" by (simp add: fresh_pinger_def)
  have dc: "done' closed_pinger \<noteq> OpenChan" by (simp add: closed_pinger_def)
  from Run_completion [of listen_ok scenario_pinger 3 record_stats no_calls] l h
  obtain w1 where "Run listen_ok scenario_pinger no_calls = Inr (scenario_pinger, w1)"
    and "user w1 = record_stats (fst (GenerateStats scenario_pinger)) (user no_calls)"
    by blast
  then have a: "\<exists>w'. Run listen_ok scenario_pinger no_calls = Inr (scenario_pinger, w') \<and>
         user w' = record_stats (fst (GenerateStats scenario_pinger)) (user no_calls) \<and>
         finished (user w') = [idle_stats]"
    by (auto simp: GenerateStats_scenario record_stats_def no_calls_def)
  have b: "\<exists>w'. Run listen_ok fresh_pinger no_calls = Inr (fresh_pinger, w') \<and>
         user w' = user no_calls"
    using Run_completion [of listen_ok fresh_pinger 3 _ no_calls] l0 h0 by blast
  have c: "\<exists>w'. Run listen_fails scenario_pinger no_calls
           = Inr (scenario_pinger\<lparr>done' := ClosedChan\<rparr>, w') \<and> user w' = user no_calls"
    using Run_completion [of listen_fails scenario_pinger _ _ no_calls
        "''operation not permitted''"] f d by blast
  have e: "\<exists>e. Run listen_fails closed_pinger no_calls = Inl e"
    using Run_completion [of listen_fails closed_pinger _ _ no_calls
        "''operation not permitted''"] fc dc by blast
  show ?thesis using l h a l0 h0 b f d c fc dc e by blast
qed

text \<open>
  Claim C7 as the specification states it fails: a run that cannot acquire its connection
  goes, in the specification's terms, straight to Finished; for the IPv6 pinger with a
  completion callback set and a transport that refuses, \<^verbatim>\<open>Run\<close> returns and the
  callback has been handed nothing.
\<close>

theorem Run_completion_counterexample:
  "OnFinish v6_pinger = Some record_stats \<and>
   listen_fails (used_proto v6_pinger) (Source v6_pinger) = Inl ''operation not permitted'' \<and>
   Run listen_fails v6_pinger no_calls =
     Inr (v6_pinger\<lparr>done' := ClosedChan\<rparr>,
          \<lparr>user = \<lparr>packets = [], finished = []\<rparr>,
           logged = [[''Error listening for ICMP Packets: %s\<newline>'', ''operation not permitted'']],
           transport = []\<rparr>)"
  by (simp add: Run_v6_fails listen_fails_def) (simp add: v6_pinger_def)

text \<open>
  Claim C2, as the code has it. When the connection cannot be acquired and the \<^verbatim>\<open>done\<close>
  channel is open, as \<^verbatim>\<open>NewPinger\<close> leaves it, \<^verbatim>\<open>Run\<close> returns with the channel
  closed and the error logged; the counters and samples are untouched, nothing is called
  on the transport, and the caller's state is as before: no callback is applied.
\<close>

theorem Run_listen_failure:
  assumes "ListenPacket (used_proto p) (Source p) = Inl err" and "done' p = OpenChan"
  shows "\<exists>w'. Run ListenPacket p w = Inr (p\<lparr>done' := ClosedChan\<rparr>, w') \<and>
           user w' = user w \<and> transport w' = transport w \<and>
           logged w' = logged w @ [[''Error listening for ICMP Packets: %s\<newline>'', err]]"
  using assms by (simp add: Run_listen_fails)

theorem Run_listen_failure_witness:
  "listen_fails (used_proto scenario_pinger) (Source scenario_pinger)
     = Inl ''operation not permitted'' \<and>
   done' scenario_pinger = OpenChan \<and>
   (\<exists>w'. Run listen_fails scenario_pinger no_calls
            = Inr (scenario_pinger\<lparr>done' := ClosedChan\<rparr>, w') \<and>
         user w' = user no_calls \<and> transport w' = transport no_calls \<and>
         logged w' = logged no_calls @
           [[''Error listening for ICMP Packets: %s\<newline>'', ''operation not permitted'']])"
proof -
  have l: "listen_fails (used_proto scenario_pinger) (Source scenario_pinger)
             = Inl ''operation not permitted''"
    by (simp add: listen_fails_def)
  have d: "done' scenario_pinger = OpenChan"
    by (simp add: scenario_pinger_def fresh_pinger_def)
  show ?thesis
    using Run_listen_failure [of listen_fails scenario_pinger "''operation not permitted''"
        no_calls, OF l d] l d
    by simp
qed

text \<open>
  Claim C2 as the specification states it fails: with a completion callback set and a
  transport that refuses the connection, the run ends with no statistics handed to the
  callback.
\<close>

theorem Run_listen_failure_counterexample:
  "OnFinish scenario_pinger = Some record_stats \<and>
   Run listen_fails scenario_pinger no_calls =
     Inr (scenario_pinger\<lparr>done' := ClosedChan\<rparr>,
          \<lparr>user = \<lparr>packets = [], finished = []\<rparr>,
           logged = [[''Error listening for ICMP Packets: %s\<newline>'', ''operation not permitted'']],
           transport = []\<rparr>)"
  by (simp add: Run_scenario_fails) (simp add: scenario_pinger_def)

text \<open>
  Claim C1, as the code has it. \<^verbatim>\<open>Run\<close> neither sends nor receives: when it returns,
  the two counters, the samples and the sequence number are those of the pinger it was
  given, whatever the count and the transport, and the caller's state is untouched or is
  the completion callback applied once; the per-packet callback is not applied.
\<close>

theorem Run_sends_nothing:
  assumes "Run ListenPacket p w = Inr (p', w')"
  shows "Pinger.PacketsSent p' = Pinger.PacketsSent p \<and>
         Pinger.PacketsRecieve p' = Pinger.PacketsRecieve p \<and>
         rtts p' = rtts p \<and> sequence p' = sequence p \<and>
         (user w' = user w \<or>
          (\<exists>h. OnFinish p = Some h \<and> user w' = h (fst (GenerateStats p)) (user w)))"
proof (cases "ListenPacket (used_proto p) (Source p)")
  case (Inl err)
  then show ?thesis
    using assms by (auto simp: Run_def used_proto_def listen_def close_chan_def
        split: if_splits chan.splits)
next
  case (Inr c)
  show ?thesis
  proof (cases "OnFinish p")
    case None
    then show ?thesis using assms Inr by (auto simp: Run_listen_ok finish_def)
  next
    case (Some h)
    then show ?thesis using assms Inr by (auto simp: Run_listen_ok finish_Some)
  qed
qed

theorem Run_sends_nothing_witness:
  "Run listen_ok scenario_pinger no_calls =
     Inr (scenario_pinger,
          \<lparr>user = \<lparr>packets = [], finished = [idle_stats]\<rparr>,
           logged = [],
           transport = [SetControlMessageTTL 3 True, Close 3]\<rparr>) \<and>
   Pinger.PacketsSent scenario_pinger = 0 \<and> Pinger.PacketsRecieve scenario_pinger = 0 \<and>
   rtts scenario_pinger = [] \<and> sequence scenario_pinger = 0"
  using Run_sends_nothing [OF Run_scenario_ok] Run_scenario_ok
  by (simp add: scenario_pinger_def fresh_pinger_def)

text \<open>
  Claim C1 as the specification states it fails: the pinger set up for five packets, run
  on a transport that opens its connection, comes back with 0 packets sent, no packet
  handed to the per-packet callback, and statistics that count 0 sent.
\<close>

theorem Run_five_packets_counterexample:
  "Count scenario_pinger = 5 \<and>
   Run listen_ok scenario_pinger no_calls =
     Inr (scenario_pinger,
          \<lparr>user = \<lparr>packets = [], finished = [idle_stats]\<rparr>,
           logged = [],
           transport = [SetControlMessageTTL 3 True, Close 3]\<rparr>) \<and>
   Pinger.PacketsSent scenario_pinger = 0 \<and> Stats.PacketsSent idle_stats = 0"
  by (simp add: Run_scenario_ok) (simp add: scenario_pinger_def fresh_pinger_def idle_stats_def)

end
